theory Spec2Isabelle
  imports Main "HOL-Library.Word" "HOL-Library.Multiset" "HOL-Library.List_Lexorder"
begin

unbundle bit_operations_syntax

section \<open>Data model\<close>

text \<open>
  Go's \<^verbatim>\<open>[]byte\<close> is either \<^verbatim>\<open>nil\<close> or a slice with contents. Where the code tests a slice
  against \<^verbatim>\<open>nil\<close> (the sentinel \<^verbatim>\<open>currentKey != nil\<close> of \<^verbatim>\<open>reduce\<close>, the null values written
  to the store) the slice is a \<open>bytes\<close>: \<open>None\<close> is \<^verbatim>\<open>nil\<close>, \<open>Some xs\<close> a non-nil slice
  holding \<open>xs\<close> (so \<open>Some []\<close> is the empty, non-nil slice). Keys held by the key-value
  store are plain byte lists.
\<close>

type_synonym byte = "8 word"
type_synonym uint64 = "64 word"
type_synonym bytes = "byte list option"

definition bytesOf :: "bytes \<Rightarrow> byte list" where
  "bytesOf b = (case b of None \<Rightarrow> [] | Some xs \<Rightarrow> xs)"

text \<open>Every way the process dies: a Go panic, or the fatal exits of \<^verbatim>\<open>x.Check\<close>,
  \<^verbatim>\<open>x.AssertTruef\<close> and \<^verbatim>\<open>log.Fatal\<close>.\<close>

datatype error =
    NilDereference
  | SliceOutOfRange
  | AssertionFailed string
  | CheckFailed string
  | LogFatal string

text \<open>\<^verbatim>\<open>protos.Posting_PostingType\<close> is an int32 enum with three named values; any other
  number is a value of the type too.\<close>

datatype PostingType = Posting_REF | Posting_VALUE | Posting_VALUE_LANG | Posting_Other "32 word"

record Posting =
  PUid :: uint64
  PValue :: "byte list"
  PostingType :: PostingType

record MapEntry =
  Key :: bytes
  Uid :: uint64
  Posting :: "Posting option"

record PostingList =
  Postings :: "Posting list"
  Uids :: bytes

section \<open>Library functions the code calls\<close>

text \<open>\<^verbatim>\<open>bytes.Compare\<close>: lexicographic on unsigned bytes, result -1, 0 or 1; a nil slice
  compares as the empty one.\<close>

fun Compare :: "byte list \<Rightarrow> byte list \<Rightarrow> int" where
  "Compare [] [] = 0"
| "Compare [] (y # ys) = -1"
| "Compare (x # xs) [] = 1"
| "Compare (x # xs) (y # ys) =
     (if x < y then -1 else if y < x then 1 else Compare xs ys)"

definition bytes_Compare :: "bytes \<Rightarrow> bytes \<Rightarrow> int" where
  "bytes_Compare a b = Compare (bytesOf a) (bytesOf b)"

text \<open>\<^verbatim>\<open>binary.BigEndian.PutUint64\<close> into an 8-byte array, and \<^verbatim>\<open>binary.BigEndian.Uint64\<close>,
  which reads the first eight bytes of its argument.\<close>

definition PutUint64 :: "uint64 \<Rightarrow> byte list" where
  "PutUint64 v =
     [ucast (drop_bit 56 v), ucast (drop_bit 48 v), ucast (drop_bit 40 v),
      ucast (drop_bit 32 v), ucast (drop_bit 24 v), ucast (drop_bit 16 v),
      ucast (drop_bit 8 v), ucast v]"

definition Uint64 :: "byte list \<Rightarrow> uint64" where
  "Uint64 b =
     ucast (b ! 7) OR push_bit 8 (ucast (b ! 6)) OR push_bit 16 (ucast (b ! 5)) OR
     push_bit 24 (ucast (b ! 4)) OR push_bit 32 (ucast (b ! 3)) OR
     push_bit 40 (ucast (b ! 2)) OR push_bit 48 (ucast (b ! 1)) OR
     push_bit 56 (ucast (b ! 0))"

section \<open>The staged ingestor (pl\_builder.go)\<close>

text \<open>The auxiliary store: composite key to value and one-byte tag. \<^verbatim>\<open>kv.Set\<close> overwrites.
  A failing store is fatal in the code (\<^verbatim>\<open>x.Check\<close>) and is not part of this model: the
  in-memory store always accepts the write.\<close>

type_synonym KV = "byte list \<rightharpoonup> (bytes \<times> byte)"

definition kv_Set :: "KV \<Rightarrow> byte list \<Rightarrow> bytes \<Rightarrow> byte \<Rightarrow> KV" where
  "kv_Set kv key val meta = kv(key \<mapsto> (val, meta))"

text \<open>
  \<^verbatim>\<open>addPosting\<close>. \<open>Marshal\<close> is \<^verbatim>\<open>posting.Marshal()\<close> of the protobuf library (\<open>None\<close>: it
  returned an error). \<^verbatim>\<open>append(key, uidBuf[:]...)\<close> yields the key's bytes followed by the
  eight bytes, whether the key was nil or not. \<^verbatim>\<open>x.AssertTruef(false, ...)\<close> is fatal.
\<close>

definition compositeKey :: "byte list \<Rightarrow> uint64 \<Rightarrow> byte list" where
  "compositeKey postingListKey uid = postingListKey @ PutUint64 uid"

definition addPosting ::
  "(Posting \<Rightarrow> byte list option) \<Rightarrow> KV \<Rightarrow> byte list \<Rightarrow> Posting \<Rightarrow> error + KV" where
  "addPosting Marshal kv postingListKey posting =
     (let key = compositeKey postingListKey (PUid posting) in
      case PostingType posting of
        Posting_REF \<Rightarrow> Inr (kv_Set kv key None 1)
      | Posting_VALUE \<Rightarrow>
          (case Marshal posting of
             None \<Rightarrow> Inl (CheckFailed ''marshal'')
           | Some val \<Rightarrow> Inr (kv_Set kv key (Some val) 0))
      | Posting_VALUE_LANG \<Rightarrow> Inl (AssertionFailed ''values not yet supported'')
      | Posting_Other _ \<Rightarrow> Inl (AssertionFailed ''unknown posting type''))"

definition extractPLKey :: "byte list \<Rightarrow> error + byte list" where
  "extractPLKey kvKey =
     (if length kvKey > 8 then Inr (take (length kvKey - 8) kvKey)
      else Inl (AssertionFailed ''unexpected key size''))"

definition extractUID :: "byte list \<Rightarrow> error + uint64" where
  "extractUID kvKey =
     (if length kvKey < 8 then Inl SliceOutOfRange
      else Inr (Uint64 (drop (length kvKey - 8) kvKey)))"


section \<open>The record decoder (reduce.go, readMapOutput)\<close>

text \<open>
  The shard file is the list of its bytes and \<open>unread\<close> is what the buffered reader has
  not consumed yet. \<^verbatim>\<open>r.Peek(n)\<close> returns the next \<open>n\<close> bytes without consuming them;
  when fewer than \<open>n\<close> bytes are left before the end of the file it returns those left
  together with the error \<^verbatim>\<open>io.EOF\<close> (the second component). The reader's buffer (16 KiB)
  is larger than \<open>n = 10\<close>, so \<^verbatim>\<open>ErrBufferFull\<close> does not arise.
\<close>

definition MaxVarintLen64 :: nat where
  "MaxVarintLen64 = 10"

definition Peek :: "nat \<Rightarrow> byte list \<Rightarrow> byte list \<times> bool" where
  "Peek n unread = (take n unread, length unread < n)"

text \<open>\<^verbatim>\<open>binary.Uvarint\<close>: the loop over the bytes of \<open>buf\<close> with index \<open>i\<close>, accumulator
  \<open>x\<close> and shift \<open>s\<close>; the result is the value and the number of bytes read (0: buffer too
  small, negative: overflow).\<close>

fun Uvarint_loop :: "byte list \<Rightarrow> nat \<Rightarrow> uint64 \<Rightarrow> nat \<Rightarrow> uint64 \<times> int" where
  "Uvarint_loop [] i x s = (0, 0)"
| "Uvarint_loop (b # buf) i x s =
     (if b < 0x80 then
        (if i > 9 \<or> i = 9 \<and> b > 1 then (0, - (int i + 1))
         else (x OR push_bit s (ucast b), int i + 1))
      else Uvarint_loop buf (i + 1) (x OR push_bit s (ucast (b AND 0x7f))) (s + 7))"

definition Uvarint :: "byte list \<Rightarrow> uint64 \<times> int" where
  "Uvarint buf = Uvarint_loop buf 0 0 0"

text \<open>
  \<^verbatim>\<open>readMapOutput\<close>: the result is the list of entries sent on \<^verbatim>\<open>mapEntryCh\<close> before it is
  closed, or the fatal error. \<open>Unmarshal\<close> is \<^verbatim>\<open>proto.Unmarshal\<close> into a fresh
  \<^verbatim>\<open>MapEntry\<close> (\<open>None\<close>: it returned an error). A length of \<open>2^63\<close> or more is negative
  as an \<^verbatim>\<open>int\<close> and the slice expression \<^verbatim>\<open>unmarshalBuf[:sz]\<close> panics.
\<close>

function readMapOutput_loop ::
  "(byte list \<Rightarrow> MapEntry option) \<Rightarrow> byte list \<Rightarrow> error + MapEntry list" where
  "readMapOutput_loop Unmarshal unread =
     (if snd (Peek MaxVarintLen64 unread) then Inr []
      else
        let sz = fst (Uvarint (fst (Peek MaxVarintLen64 unread)));
            n = snd (Uvarint (fst (Peek MaxVarintLen64 unread)))
        in if n \<le> 0 then Inl (LogFatal ''Could not read uvarint'')
           else if 2 ^ 63 \<le> unat sz then Inl SliceOutOfRange
           else if length (drop (nat n) unread) < unat sz then Inl (CheckFailed ''ReadFull'')
           else
             (case Unmarshal (take (unat sz) (drop (nat n) unread)) of
                None \<Rightarrow> Inl (CheckFailed ''Unmarshal'')
              | Some mapEntry \<Rightarrow>
                  (case readMapOutput_loop Unmarshal (drop (unat sz) (drop (nat n) unread)) of
                     Inl e \<Rightarrow> Inl e
                   | Inr sent \<Rightarrow> Inr (mapEntry # sent))))"
  by pat_completeness auto
termination readMapOutput_loop
  apply (relation "measure (\<lambda>(U, unread). length unread)")
   apply simp
  apply (simp add: Peek_def MaxVarintLen64_def)
  done

declare readMapOutput_loop.simps [simp del]

definition readMapOutput ::
  "(byte list \<Rightarrow> MapEntry option) \<Rightarrow> byte list \<Rightarrow> error + MapEntry list" where
  "readMapOutput Unmarshal file = readMapOutput_loop Unmarshal file"

section \<open>The merge stage and the batch partitioner (reduce.go, shufflePostings)\<close>

text \<open>
  A channel fed by \<^verbatim>\<open>readMapOutput\<close> delivers the entries of one shard in order and is then
  closed; it is the list of the entries it will still deliver. Receiving from a closed,
  drained channel yields the nil pointer (and \<^verbatim>\<open>ok = false\<close>). A heap node holds the
  current entry of its channel (\<open>None\<close>: nil) and the channel.
\<close>


record heapNode =
  mapEntry :: "MapEntry option"
  ch :: "MapEntry list"

type_synonym postingHeap = "heapNode list"


text \<open>
  The methods of \<^verbatim>\<open>postingHeap\<close> (lines 113-129). \<^verbatim>\<open>Less\<close> reads \<^verbatim>\<open>mapEntry.Key\<close> of both
  nodes, which panics on a nil entry. The heap package only passes indices below
  \<^verbatim>\<open>Len()\<close>.
\<close>


definition Less :: "postingHeap \<Rightarrow> nat \<Rightarrow> nat \<Rightarrow> error + bool" where
  "Less h i j =
     (case (mapEntry (h ! i), mapEntry (h ! j)) of
        (Some a, Some b) \<Rightarrow> Inr (bytes_Compare (Key a) (Key b) < 0)
      | _ \<Rightarrow> Inl NilDereference)"

definition Swap :: "postingHeap \<Rightarrow> nat \<Rightarrow> nat \<Rightarrow> postingHeap" where
  "Swap h i j = h[i := h ! j, j := h ! i]"

definition Push :: "postingHeap \<Rightarrow> heapNode \<Rightarrow> postingHeap" where
  "Push h x = h @ [x]"

definition Pop :: "postingHeap \<Rightarrow> heapNode \<times> postingHeap" where
  "Pop h = (last h, butlast h)"


text \<open>
  \<^verbatim>\<open>container/heap\<close>: \<^verbatim>\<open>up\<close>, \<^verbatim>\<open>down\<close>, \<^verbatim>\<open>Push\<close>, \<^verbatim>\<open>Pop\<close> and \<^verbatim>\<open>Fix\<close>. The parent of \<open>j\<close> is
  \<^verbatim>\<open>(j - 1) / 2\<close>, which Go's truncating division makes 0 for \<open>j = 0\<close>, as the natural
  number subtraction does here. \<^verbatim>\<open>down\<close> returns whether the element moved; its loop
  returns the final index. (The test \<^verbatim>\<open>j1 < 0\<close> for integer overflow cannot hold for
  indices of a slice.)
\<close>


function heap_up :: "postingHeap \<Rightarrow> nat \<Rightarrow> error + postingHeap" where
  "heap_up h j =
     (let i = (j - 1) div 2 in
      if i = j then Inr h
      else
        (case Less h j i of
           Inl e \<Rightarrow> Inl e
         | Inr lt \<Rightarrow> if \<not> lt then Inr h else heap_up (Swap h i j) i))"
  by pat_completeness auto
termination heap_up
  by (relation "measure (\<lambda>(h, j). j)") auto

function heap_down_loop :: "postingHeap \<Rightarrow> nat \<Rightarrow> nat \<Rightarrow> error + postingHeap \<times> nat" where
  "heap_down_loop h i n =
     (let j1 = 2 * i + 1 in
      if j1 \<ge> n then Inr (h, i)
      else
        (case (if j1 + 1 < n then Less h (j1 + 1) j1 else Inr False) of
           Inl e \<Rightarrow> Inl e
         | Inr right \<Rightarrow>
             (let j = (if right then j1 + 1 else j1) in
              case Less h j i of
                Inl e \<Rightarrow> Inl e
              | Inr lt \<Rightarrow> if \<not> lt then Inr (h, i) else heap_down_loop (Swap h i j) j n)))"
  by pat_completeness auto
termination heap_down_loop
  by (relation "measure (\<lambda>(h, i, n). n - i)") (auto split: if_splits)

declare heap_up.simps [simp del] heap_down_loop.simps [simp del]

definition heap_down :: "postingHeap \<Rightarrow> nat \<Rightarrow> nat \<Rightarrow> error + postingHeap \<times> bool" where
  "heap_down h i0 n =
     (case heap_down_loop h i0 n of Inl e \<Rightarrow> Inl e | Inr (h', i) \<Rightarrow> Inr (h', i > i0))"

definition heap_Push :: "postingHeap \<Rightarrow> heapNode \<Rightarrow> error + postingHeap" where
  "heap_Push h x = heap_up (Push h x) (length (Push h x) - 1)"

definition heap_Pop :: "postingHeap \<Rightarrow> error + heapNode \<times> postingHeap" where
  "heap_Pop h =
     (let n = length h - 1 in
      case heap_down (Swap h 0 n) 0 n of
        Inl e \<Rightarrow> Inl e
      | Inr (h', _) \<Rightarrow> Inr (Pop h'))"

definition heap_Fix :: "postingHeap \<Rightarrow> nat \<Rightarrow> error + postingHeap" where
  "heap_Fix h i =
     (case heap_down h i (length h) of
        Inl e \<Rightarrow> Inl e
      | Inr (h', moved) \<Rightarrow> if \<not> moved then heap_up h' i else Inr h')"


subsection \<open>The heap operations permute the nodes\<close>

text \<open>Needed for the termination of the merge loop: whatever the keys are, an operation
  that returns has only exchanged nodes.\<close>


lemma Swap_nth:
  "i < length h \<Longrightarrow> j < length h \<Longrightarrow>
   Swap h i j ! x = (if x = j then h ! i else if x = i then h ! j else h ! x)"
  by (simp add: Swap_def nth_list_update)

lemma length_Swap [simp]: "length (Swap h i j) = length h"
  by (simp add: Swap_def)

lemma mset_Swap: "i < length h \<Longrightarrow> j < length h \<Longrightarrow> mset (Swap h i j) = mset h"
  unfolding Swap_def by (simp add: mset_swap)

lemma drop_Swap: "i < n \<Longrightarrow> j < n \<Longrightarrow> drop n (Swap h i j) = drop n h"
  by (simp add: Swap_def)

lemma down_mset:
  "heap_down_loop h i n = Inr (h', i') \<Longrightarrow> n \<le> length h \<Longrightarrow>
   mset h' = mset h \<and> length h' = length h \<and> drop n h' = drop n h"
proof (induction h i n rule: heap_down_loop.induct)
  case (1 h i n)
  let ?j1 = "2 * i + 1"
  let ?c = "if ?j1 + 1 < n then Less h (?j1 + 1) ?j1 else Inr False"
  show ?case
  proof (cases "n \<le> ?j1")
    case True
    then show ?thesis using "1.prems" by (simp add: heap_down_loop.simps[of h i n])
  next
    case False
    then have i: "i < n" "?j1 < n" by auto
    show ?thesis
    proof (cases ?c)
      case (Inl e)
      have "heap_down_loop h i n = Inl e"
        apply (subst heap_down_loop.simps)
        apply (simp only: Let_def False if_False Inl sum.case)
        done
      then show ?thesis using "1.prems"(1) by simp
    next
      case (Inr right)
      define j where "j = (if right then ?j1 + 1 else ?j1)"
      have jn: "j < n" using i Inr by (auto simp: j_def split: if_splits)
      show ?thesis
      proof (cases "Less h j i")
        case L2: (Inl e)
        have "heap_down_loop h i n = Inl e"
          apply (subst heap_down_loop.simps)
          apply (simp only: Let_def False if_False Inr sum.case j_def[symmetric] L2)
          done
        then show ?thesis using "1.prems"(1) by simp
      next
        case L2: (Inr lt)
        have eq: "heap_down_loop h i n =
            (if \<not> lt then Inr (h, i) else heap_down_loop (Swap h i j) j n)"
          apply (subst heap_down_loop.simps)
          apply (simp only: Let_def False if_False Inr sum.case j_def[symmetric] L2)
          done
        show ?thesis
        proof (cases lt)
          case False
          then show ?thesis using "1.prems" eq by simp
        next
          case True
          have len: "i < length h" "j < length h" using i jn "1.prems"(2) by auto
          have r: "heap_down_loop (Swap h i j) j n = Inr (h', i')"
            using "1.prems"(1) eq True by simp
          have "mset h' = mset (Swap h i j) \<and> length h' = length (Swap h i j) \<and>
                drop n h' = drop n (Swap h i j)"
          proof (rule "1.IH"[of ?j1 right j lt])
            show "?j1 = 2 * i + 1" by simp
            show "\<not> n \<le> ?j1" by (rule False)
            show "?c = Inr right" by (rule Inr)
            show "j = (if right then ?j1 + 1 else ?j1)" by (simp add: j_def)
            show "Less h j i = Inr lt" by (rule L2)
            show "\<not> \<not> lt" using True by simp
            show "heap_down_loop (Swap h i j) j n = Inr (h', i')" by (rule r)
            show "n \<le> length (Swap h i j)" using "1.prems"(2) by simp
          qed
          then show ?thesis using mset_Swap[OF len] drop_Swap[OF i(1) jn] by simp
        qed
      qed
    qed
  qed
qed

lemma heap_up_0: "heap_up h 0 = Inr h"
  by (simp add: heap_up.simps[of h 0])

lemma up_mset:
  "heap_up h j = Inr h' \<Longrightarrow> j < length h \<Longrightarrow> mset h' = mset h \<and> length h' = length h"
proof (induction h j rule: heap_up.induct)
  case (1 h j)
  let ?p = "(j - 1) div 2"
  show ?case
  proof (cases "?p = j")
    case True
    then have "j = 0" by arith
    then show ?thesis using "1.prems" by (simp add: heap_up_0)
  next
    case False
    then have pj: "?p < j" by arith
    show ?thesis
    proof (cases "Less h j ?p")
      case (Inl e)
      have "heap_up h j = Inl e"
        apply (subst heap_up.simps)
        apply (simp only: Let_def False if_False Inl sum.case)
        done
      then show ?thesis using "1.prems"(1) by simp
    next
      case (Inr lt)
      have eq: "heap_up h j = (if \<not> lt then Inr h else heap_up (Swap h ?p j) ?p)"
        apply (subst heap_up.simps)
        apply (simp only: Let_def False if_False Inr sum.case)
        done
      show ?thesis
      proof (cases lt)
        case False
        then show ?thesis using "1.prems" eq by simp
      next
        case True
        have len: "?p < length h" "j < length h" using pj "1.prems"(2) by auto
        have r: "heap_up (Swap h ?p j) ?p = Inr h'" using "1.prems"(1) eq True by simp
        have "mset h' = mset (Swap h ?p j) \<and> length h' = length (Swap h ?p j)"
        proof (rule "1.IH"[of ?p lt])
          show "?p = (j - 1) div 2" by simp
          show "?p \<noteq> j" by (rule False)
          show "Less h j ?p = Inr lt" by (rule Inr)
          show "\<not> \<not> lt" using True by simp
          show "heap_up (Swap h ?p j) ?p = Inr h'" by (rule r)
          show "?p < length (Swap h ?p j)" using len by simp
        qed
        then show ?thesis using mset_Swap[OF len] by simp
      qed
    qed
  qed
qed


subsection \<open>The loop of shufflePostings\<close>

text \<open>
  Lines 81-88: take the entry at the root, receive the next entry of the root's channel
  into the root node, and restore the heap with \<^verbatim>\<open>heap.Fix\<close>, or remove the node with
  \<^verbatim>\<open>heap.Pop\<close> when the channel is closed (the node then holds nil).
\<close>


definition next_entry :: "postingHeap \<Rightarrow> error + MapEntry option \<times> postingHeap" where
  "next_entry ph =
     (let me = mapEntry (ph ! 0) in
      case ch (ph ! 0) of
        [] \<Rightarrow>
          (case heap_Pop (ph[0 := (ph ! 0)\<lparr>mapEntry := None\<rparr>]) of
             Inl e \<Rightarrow> Inl e
           | Inr (_, ph') \<Rightarrow> Inr (me, ph'))
      | x # rest \<Rightarrow>
          (case heap_Fix (ph[0 := \<lparr>mapEntry = Some x, ch = rest\<rparr>]) 0 of
             Inl e \<Rightarrow> Inl e
           | Inr ph' \<Rightarrow> Inr (me, ph')))"


text \<open>The number of entries still to come, plus one per source; it decreases with every
  iteration.\<close>


definition weight :: "postingHeap \<Rightarrow> nat" where
  "weight ph = sum_mset (image_mset (\<lambda>x. Suc (length (ch x))) (mset ph))"

lemma heap_Fix_mset:
  assumes "heap_Fix h i = Inr h'" "i < length h"
  shows "mset h' = mset h"
proof -
  from assms(1) obtain h1 i1 where d: "heap_down_loop h i (length h) = Inr (h1, i1)"
    by (auto simp: heap_Fix_def heap_down_def split: sum.splits)
  have m: "mset h1 = mset h" "length h1 = length h" using down_mset[OF d] by auto
  show ?thesis
  proof (cases "i1 > i")
    case True
    then show ?thesis using assms(1) d m by (simp add: heap_Fix_def heap_down_def)
  next
    case False
    then have "heap_up h1 i = Inr h'" using assms(1) d by (simp add: heap_Fix_def heap_down_def)
    then show ?thesis using up_mset[of h1 i h'] assms(2) m by simp
  qed
qed

lemma heap_Pop_mset:
  assumes "heap_Pop h = Inr (x, h')" "h \<noteq> []"
  shows "mset h' + {#x#} = mset h"
proof -
  let ?n = "length h - 1"
  from assms(1) obtain h1 i1 where d: "heap_down_loop (Swap h 0 ?n) 0 ?n = Inr (h1, i1)"
    by (auto simp: heap_Pop_def heap_down_def Let_def split: sum.splits)
  have r: "Pop h1 = (x, h')"
    using assms(1) d by (simp add: heap_Pop_def heap_down_def Let_def)
  have "mset h1 = mset (Swap h 0 ?n)" "length h1 = length (Swap h 0 ?n)"
    using down_mset[OF d] by auto
  then have m: "mset h1 = mset h" "length h1 = length h"
    using mset_Swap[of 0 h ?n] assms(2) by auto
  then have "h1 \<noteq> []" using assms(2) by auto
  then have "mset (butlast h1) + {#last h1#} = mset h1"
    by (cases h1 rule: rev_cases) simp_all
  then show ?thesis using r m by (simp add: Pop_def)
qed

lemma next_entry_weight:
  assumes "next_entry ph = Inr (me, ph')" "ph \<noteq> []"
  shows "weight ph' < weight ph"
proof (cases "ch (ph ! 0)")
  case Nil
  let ?g = "ph[0 := (ph ! 0)\<lparr>mapEntry := None\<rparr>]"
  from assms(1) Nil obtain y where p: "heap_Pop ?g = Inr (y, ph')"
    by (auto simp: next_entry_def Let_def split: sum.splits)
  have "mset ?g = mset ph' + {#y#}" using heap_Pop_mset[OF p] assms(2) by simp
  then have "weight ?g = weight ph' + Suc (length (ch y))"
    unfolding weight_def by simp
  moreover have "weight ?g = weight ph"
    using assms(2) by (cases ph) (simp_all add: weight_def)
  ultimately show ?thesis by simp
next
  case (Cons x rest)
  let ?g = "ph[0 := \<lparr>mapEntry = Some x, ch = rest\<rparr>]"
  from assms(1) Cons have p: "heap_Fix ?g 0 = Inr ph'"
    by (auto simp: next_entry_def Let_def split: sum.splits)
  have "mset ph' = mset ?g" using heap_Fix_mset[OF p] assms(2) by simp
  then have "weight ph' = weight ?g" by (simp add: weight_def)
  moreover have "weight ?g < weight ph"
    using assms(2) Cons by (cases ph) (simp_all add: weight_def)
  ultimately show ?thesis by simp
qed


text \<open>
  The loop (lines 80-101) with \<open>batch\<close> and \<open>prevKey\<close>; the result is the list of batches
  sent on \<^verbatim>\<open>batchCh\<close>, in order. \<^verbatim>\<open>me.Key\<close> panics when \<open>me\<close> is nil. The counter
  \<^verbatim>\<open>NumQueuedReduceJobs\<close> is not modelled.
\<close>


function shufflePostings_loop ::
  "nat \<Rightarrow> postingHeap \<Rightarrow> MapEntry list \<Rightarrow> bytes \<Rightarrow> error + MapEntry list list" where
  "shufflePostings_loop batchSize ph batch prevKey =
     (if length ph > 0 then
        (case next_entry ph of
           Inl e \<Rightarrow> Inl e
         | Inr (me, ph') \<Rightarrow>
             (case me of
                None \<Rightarrow> Inl NilDereference
              | Some m \<Rightarrow>
                  if length batch \<ge> batchSize \<and> bytes_Compare prevKey (Key m) \<noteq> 0
                  then
                    (case shufflePostings_loop batchSize ph' [m] (Key m) of
                       Inl e \<Rightarrow> Inl e
                     | Inr sent \<Rightarrow> Inr (batch # sent))
                  else shufflePostings_loop batchSize ph' (batch @ [m]) (Key m)))
      else Inr (if length batch > 0 then [batch] else []))"
  by pat_completeness auto
termination shufflePostings_loop
  by (relation "measure (\<lambda>(B, ph, batch, prevKey). weight ph)")
    (auto simp: next_entry_weight)

declare shufflePostings_loop.simps [simp del]


text \<open>Lines 72-74: one node per channel, holding whatever the first receive yields; no
  check that the channel delivered an entry.\<close>


fun seed_loop :: "postingHeap \<Rightarrow> MapEntry list list \<Rightarrow> error + postingHeap" where
  "seed_loop ph [] = Inr ph"
| "seed_loop ph (c # mapEntryChs) =
     (case heap_Push ph
             (case c of [] \<Rightarrow> \<lparr>mapEntry = None, ch = []\<rparr>
                      | x # rest \<Rightarrow> \<lparr>mapEntry = Some x, ch = rest\<rparr>) of
        Inl e \<Rightarrow> Inl e
      | Inr ph' \<Rightarrow> seed_loop ph' mapEntryChs)"

definition batchSize :: nat where
  "batchSize = 100000"

definition shufflePostings :: "MapEntry list list \<Rightarrow> error + MapEntry list list" where
  "shufflePostings mapEntryChs =
     (case seed_loop [] mapEntryChs of
        Inl e \<Rightarrow> Inl e
      | Inr ph \<Rightarrow> shufflePostings_loop batchSize ph [] None)"


subsection \<open>Definitions used only in proofs\<close>

text \<open>The sequence of entries the loop takes from the heap, and the batches the loop
  cuts from such a sequence.\<close>


function merge_loop :: "postingHeap \<Rightarrow> error + MapEntry list" where
  "merge_loop ph =
     (if length ph > 0 then
        (case next_entry ph of
           Inl e \<Rightarrow> Inl e
         | Inr (me, ph') \<Rightarrow>
             (case me of
                None \<Rightarrow> Inl NilDereference
              | Some m \<Rightarrow>
                  (case merge_loop ph' of Inl e \<Rightarrow> Inl e | Inr ms \<Rightarrow> Inr (m # ms))))
      else Inr [])"
  by pat_completeness auto
termination merge_loop
  by (relation "measure weight") (auto simp: next_entry_weight)

declare merge_loop.simps [simp del]

fun partition_batches ::
  "nat \<Rightarrow> MapEntry list \<Rightarrow> MapEntry list \<Rightarrow> bytes \<Rightarrow> MapEntry list list" where
  "partition_batches B [] batch prevKey = (if length batch > 0 then [batch] else [])"
| "partition_batches B (m # ms) batch prevKey =
     (if length batch \<ge> B \<and> bytes_Compare prevKey (Key m) \<noteq> 0
      then batch # partition_batches B ms [m] (Key m)
      else partition_batches B ms (batch @ [m]) (Key m))"


text \<open>The heap order on a function from positions to keys: everywhere, everywhere but
  below position \<open>i\<close>, everywhere but above position \<open>j\<close>.\<close>


definition hp :: "(nat \<Rightarrow> 'a::linorder) \<Rightarrow> nat \<Rightarrow> bool" where
  "hp k n \<longleftrightarrow> (\<forall>x. 0 < x \<and> x < n \<longrightarrow> k ((x - 1) div 2) \<le> k x)"

definition hp_down :: "(nat \<Rightarrow> 'a::linorder) \<Rightarrow> nat \<Rightarrow> nat \<Rightarrow> bool" where
  "hp_down k n i \<longleftrightarrow>
     (\<forall>x. 0 < x \<and> x < n \<longrightarrow>
        ((x - 1) div 2 \<noteq> i \<longrightarrow> k ((x - 1) div 2) \<le> k x) \<and>
        ((x - 1) div 2 = i \<and> 0 < i \<longrightarrow> k ((i - 1) div 2) \<le> k x))"

definition hp_up :: "(nat \<Rightarrow> 'a::linorder) \<Rightarrow> nat \<Rightarrow> nat \<Rightarrow> bool" where
  "hp_up k n j \<longleftrightarrow>
     (\<forall>x. 0 < x \<and> x < n \<longrightarrow>
        (x \<noteq> j \<longrightarrow> k ((x - 1) div 2) \<le> k x) \<and>
        ((x - 1) div 2 = j \<and> 0 < j \<longrightarrow> k ((j - 1) div 2) \<le> k x))"

definition nkey :: "heapNode \<Rightarrow> byte list" where
  "nkey x = (case mapEntry x of None \<Rightarrow> [] | Some m \<Rightarrow> bytesOf (Key m))"

definition keys_of :: "postingHeap \<Rightarrow> nat \<Rightarrow> byte list" where
  "keys_of h = (\<lambda>x. nkey (h ! x))"

definition live :: "postingHeap \<Rightarrow> nat \<Rightarrow> bool" where
  "live h n \<longleftrightarrow> (\<forall>i<n. mapEntry (h ! i) \<noteq> None)"

definition heap_inv :: "postingHeap \<Rightarrow> bool" where
  "heap_inv h \<longleftrightarrow> hp (keys_of h) (length h) \<and> live h (length h)"

definition ekey :: "MapEntry \<Rightarrow> byte list" where
  "ekey m = bytesOf (Key m)"

definition node_elems :: "heapNode \<Rightarrow> MapEntry multiset" where
  "node_elems x = (case mapEntry x of None \<Rightarrow> {#} | Some m \<Rightarrow> {#m#}) + mset (ch x)"

definition elems :: "postingHeap \<Rightarrow> MapEntry multiset" where
  "elems ph = sum_mset (image_mset node_elems (mset ph))"

definition node_sorted :: "heapNode \<Rightarrow> bool" where
  "node_sorted x \<longleftrightarrow> (case mapEntry x of None \<Rightarrow> True | Some m \<Rightarrow> sorted (map ekey (m # ch x)))"

definition node_of :: "MapEntry list \<Rightarrow> heapNode" where
  "node_of c = (case c of [] \<Rightarrow> \<lparr>mapEntry = None, ch = []\<rparr>
                        | x # rest \<Rightarrow> \<lparr>mapEntry = Some x, ch = rest\<rparr>)"

definition ent :: "byte \<Rightarrow> uint64 \<Rightarrow> MapEntry" where
  "ent k u = \<lparr>Key = Some [k], Uid = u, Posting = None\<rparr>"

section \<open>The write concurrency gate (reduce.go, the end of reduce)\<close>

text \<open>
  The last lines of \<^verbatim>\<open>reduce\<close>, run by every reduce worker for every batch:
  \<^verbatim>\<open>pendingBadgerWrites <- struct{}{}\<close> (line 187), then \<^verbatim>\<open>kv.BatchSetAsync(entries, callback)\<close>
  (line 189); the callback, run by the store once the batch is written, ends with
  \<^verbatim>\<open><-pendingBadgerWrites\<close> (line 203). The channel is created by the caller with some
  capacity \<open>K\<close>. The state counts the elements buffered in the channel, records for each
  worker whether its next statement is the send or the write, and counts the batches
  issued whose callback has not yet received from the channel. A send on a buffered
  channel proceeds only while fewer than \<open>K\<close> elements are buffered; a receive proceeds
  only when an element is buffered. Any interleaving of the workers and the callbacks is a
  sequence of these steps.
\<close>

datatype worker_pc = BeforeSend | BeforeWrite

record gate =
  pendingBadgerWrites :: nat
  workers :: "worker_pc list"
  inflight :: nat

inductive gate_step :: "nat \<Rightarrow> gate \<Rightarrow> gate \<Rightarrow> bool" for K :: nat where
  acquire:
    "i < length (workers s) \<Longrightarrow> workers s ! i = BeforeSend \<Longrightarrow>
     pendingBadgerWrites s < K \<Longrightarrow>
     gate_step K s (s\<lparr>pendingBadgerWrites := pendingBadgerWrites s + 1,
                        workers := (workers s)[i := BeforeWrite]\<rparr>)"
| issue:
    "i < length (workers s) \<Longrightarrow> workers s ! i = BeforeWrite \<Longrightarrow>
     gate_step K s (s\<lparr>inflight := inflight s + 1,
                        workers := (workers s)[i := BeforeSend]\<rparr>)"
| callback:
    "0 < inflight s \<Longrightarrow> 0 < pendingBadgerWrites s \<Longrightarrow>
     gate_step K s (s\<lparr>inflight := inflight s - 1,
                        pendingBadgerWrites := pendingBadgerWrites s - 1\<rparr>)"

definition gate_init :: "nat \<Rightarrow> gate" where
  "gate_init n = \<lparr>pendingBadgerWrites = 0, workers = replicate n BeforeSend, inflight = 0\<rparr>"

inductive reachable :: "nat \<Rightarrow> nat \<Rightarrow> gate \<Rightarrow> bool" for K n :: nat where
  init: "reachable K n (gate_init n)"
| step: "reachable K n s \<Longrightarrow> gate_step K s s' \<Longrightarrow> reachable K n s'"

text \<open>Workers that hold a slot and have not issued their write yet.\<close>

definition holding :: "gate \<Rightarrow> nat" where
  "holding s = length (filter (\<lambda>pc. pc = BeforeWrite) (workers s))"

section \<open>The count index flush (pl\_builder.go, lines 157-170)\<close>

text \<open>
  A call of \<^verbatim>\<open>target.Set(key, value, meta)\<close>, labelled with the statement that makes it:
  the posting-list write (lines 127 and 129) or the count-index write (lines 164 and
  166). The finalizer's result is the list of its calls in order.
\<close>

datatype site = PostingListWrite | CountIndexWrite

record Write =
  wSite :: site
  wKey :: "byte list"
  wValue :: bytes
  wMeta :: byte

text \<open>
  The body of the inner loop for one \<open>i\<close>. \<open>CountKey\<close> is \<^verbatim>\<open>x.CountKey\<close> and \<open>bitPackUids\<close>
  the packing function, both defined outside these files and taken as parameters.
  \<^verbatim>\<open>counts[i]\<close> of an absent key is the nil slice; \<^verbatim>\<open>uint32(i)\<close> truncates.
\<close>

definition countIndexEntry ::
  "(string \<Rightarrow> 32 word \<Rightarrow> bool \<Rightarrow> byte list) \<Rightarrow> (uint64 list \<Rightarrow> bytes) \<Rightarrow>
   string \<Rightarrow> (nat \<rightharpoonup> uint64 list) \<Rightarrow> nat \<Rightarrow> Write" where
  "countIndexEntry CountKey bitPackUids attr counts i =
     (let pl = (case counts i of None \<Rightarrow> [] | Some us \<Rightarrow> us);
          key = CountKey attr (of_nat i) False
      in if length pl > 0
         then \<lparr>wSite = CountIndexWrite, wKey = key, wValue = bitPackUids pl, wMeta = 1\<rparr>
         else \<lparr>wSite = CountIndexWrite, wKey = key, wValue = None, wMeta = 0\<rparr>)"

text \<open>
  The outer loop \<^verbatim>\<open>for cnt := range counts\<close>: Go visits the keys of a map in an
  unspecified order, so the order is an argument. \<open>highest\<close> starts at -1 and is set to
  \<open>cnt\<close> after every key; the inner loop runs \<open>i\<close> from \<open>highest + 1\<close> to \<open>cnt\<close>.
\<close>

fun flushCounts_loop ::
  "(string \<Rightarrow> 32 word \<Rightarrow> bool \<Rightarrow> byte list) \<Rightarrow> (uint64 list \<Rightarrow> bytes) \<Rightarrow>
   string \<Rightarrow> (nat \<rightharpoonup> uint64 list) \<Rightarrow> int \<Rightarrow> nat list \<Rightarrow> Write list" where
  "flushCounts_loop CountKey bitPackUids attr counts highest [] = []"
| "flushCounts_loop CountKey bitPackUids attr counts highest (cnt # rest) =
     map (countIndexEntry CountKey bitPackUids attr counts) [nat (highest + 1) ..< Suc cnt] @
     flushCounts_loop CountKey bitPackUids attr counts (int cnt) rest"

definition flushCounts ::
  "(string \<Rightarrow> 32 word \<Rightarrow> bool \<Rightarrow> byte list) \<Rightarrow> (uint64 list \<Rightarrow> bytes) \<Rightarrow>
   string \<Rightarrow> (nat \<rightharpoonup> uint64 list) \<Rightarrow> nat list \<Rightarrow> Write list" where
  "flushCounts CountKey bitPackUids attr counts order =
     flushCounts_loop CountKey bitPackUids attr counts (- 1) order"

text \<open>The values \<open>i\<close> takes, in order; used only in proofs.\<close>

fun flushed :: "int \<Rightarrow> nat list \<Rightarrow> nat list" where
  "flushed highest [] = []"
| "flushed highest (cnt # rest) = [nat (highest + 1) ..< Suc cnt] @ flushed (int cnt) rest"

text \<open>The value of a byte string read as a big-endian number; used only in proofs.\<close>

fun be_nat :: "byte list \<Rightarrow> nat" where
  "be_nat [] = 0"
| "be_nat (x # xs) = unat x * 256 ^ length xs + be_nat xs"

section \<open>The reduce step (reduce.go, reduce)\<close>

text \<open>
  A \<^verbatim>\<open>badger.Entry\<close> as \<^verbatim>\<open>reduce\<close> fills it: key, value and the one-byte user tag. The
  entries of one call are handed to \<^verbatim>\<open>kv.BatchSetAsync\<close> in one request; the model returns
  them. An entry taken from \<^verbatim>\<open>entPool\<close> is zero (the callback clears an entry before it
  puts it back), so the tag of an entry whose tag is not assigned is 0.

  \<^verbatim>\<open>bp128.DeltaPack\<close> and \<^verbatim>\<open>PostingList.MarshalTo\<close> belong to other packages and are
  parameters. Either may end the program: \<open>DeltaPack\<close> returns \<open>Inl\<close> where the call is
  fatal, and \<^verbatim>\<open>x.Check2\<close> is fatal on an error of \<open>MarshalTo\<close> (\<open>None\<close>). The buffers of
  \<^verbatim>\<open>plBufPool\<close> only recycle memory and the progress counters only count: neither is
  modelled.

  The closure \<^verbatim>\<open>outputPostingList\<close> reads and resets the variables of \<^verbatim>\<open>reduce\<close>: here it
  takes them and returns the new \<open>uids\<close>, \<open>pl\<close> and \<open>entries\<close>. The loop closes the
  posting list in hand when the key of the entry differs from \<open>currentKey\<close> and
  \<open>currentKey\<close> is not nil; the last posting list is closed after the loop, whatever
  the batch held.
\<close>

record Entry =
  EKey :: bytes
  EValue :: bytes
  UserMeta :: byte

definition outputPostingList ::
  "(uint64 list \<Rightarrow> error + bytes) \<Rightarrow> (PostingList \<Rightarrow> byte list option) \<Rightarrow>
   bytes \<Rightarrow> uint64 list \<Rightarrow> PostingList \<Rightarrow> Entry list \<Rightarrow>
   error + uint64 list \<times> PostingList \<times> Entry list" where
  "outputPostingList DeltaPack MarshalTo currentKey uids pl entries =
     (if length (Postings pl) = 0
      then
        (case DeltaPack uids of
           Inl e \<Rightarrow> Inl e
         | Inr packed \<Rightarrow>
             Inr ([], \<lparr>Postings = [], Uids = None\<rparr>,
                  entries @ [\<lparr>EKey = currentKey, EValue = packed, UserMeta = 1\<rparr>]))
      else
        (case DeltaPack uids of
           Inl e \<Rightarrow> Inl e
         | Inr packed \<Rightarrow>
             (case MarshalTo (pl\<lparr>Uids := packed\<rparr>) of
                None \<Rightarrow> Inl (CheckFailed ''MarshalTo'')
              | Some buf \<Rightarrow>
                  Inr ([], \<lparr>Postings = [], Uids = None\<rparr>,
                       entries @ [\<lparr>EKey = currentKey, EValue = Some buf, UserMeta = 0\<rparr>]))))"

fun reduce_loop ::
  "(uint64 list \<Rightarrow> error + bytes) \<Rightarrow> (PostingList \<Rightarrow> byte list option) \<Rightarrow>
   MapEntry list \<Rightarrow> bytes \<Rightarrow> uint64 list \<Rightarrow> PostingList \<Rightarrow> Entry list \<Rightarrow>
   error + bytes \<times> uint64 list \<times> PostingList \<times> Entry list" where
  "reduce_loop DeltaPack MarshalTo [] currentKey uids pl entries =
     Inr (currentKey, uids, pl, entries)"
| "reduce_loop DeltaPack MarshalTo (entry # batch) currentKey uids pl entries =
     (case (if bytes_Compare (Key entry) currentKey \<noteq> 0 \<and> currentKey \<noteq> None
            then outputPostingList DeltaPack MarshalTo currentKey uids pl entries
            else Inr (uids, pl, entries)) of
        Inl e \<Rightarrow> Inl e
      | Inr (uids1, pl1, entries1) \<Rightarrow>
          (case Posting entry of
             None \<Rightarrow>
               reduce_loop DeltaPack MarshalTo batch (Key entry)
                 (uids1 @ [Uid entry]) pl1 entries1
           | Some p \<Rightarrow>
               reduce_loop DeltaPack MarshalTo batch (Key entry)
                 (uids1 @ [PUid p]) (pl1\<lparr>Postings := Postings pl1 @ [p]\<rparr>) entries1))"

definition reduce ::
  "(uint64 list \<Rightarrow> error + bytes) \<Rightarrow> (PostingList \<Rightarrow> byte list option) \<Rightarrow>
   MapEntry list \<Rightarrow> error + Entry list" where
  "reduce DeltaPack MarshalTo batch =
     (case reduce_loop DeltaPack MarshalTo batch None [] \<lparr>Postings = [], Uids = None\<rparr> [] of
        Inl e \<Rightarrow> Inl e
      | Inr (currentKey, uids, pl, entries) \<Rightarrow>
          (case outputPostingList DeltaPack MarshalTo currentKey uids pl entries of
             Inl e \<Rightarrow> Inl e
           | Inr (_, _, entries') \<Rightarrow> Inr entries'))"


section \<open>The staged finalizer (pl\_builder.go, buildPostingLists)\<close>

text \<open>
  An item of the iterator over the auxiliary store: composite key, value, tag. The
  iterator yields the items in ascending order of the composite key; the model takes the
  list of items in that order.

  \<^verbatim>\<open>Posting.Unmarshal\<close>, \<^verbatim>\<open>PostingList.Marshal\<close>, \<^verbatim>\<open>bitPackUids\<close>, \<^verbatim>\<open>x.Parse\<close>,
  \<^verbatim>\<open>x.CountKey\<close> and the schema lookup \<^verbatim>\<open>ss.m[attr].GetCount()\<close> are not in these source
  files: they are the fields of \<open>env\<close>. \<^verbatim>\<open>x.Parse\<close> returns a pointer and may panic on a
  byte string that is not a key of the database: \<open>Inl\<close> is the panic, \<open>Inr None\<close> the nil
  pointer, and \<open>deref\<close> is the use of a field or method of the result, a panic on nil.
  \<open>rangeOrder\<close> is the order in which \<^verbatim>\<open>range counts\<close> visits the keys of the count
  map, which Go leaves unspecified. \<^verbatim>\<open>bitPackUids\<close> is only ever called on a list that is
  not empty.
\<close>

record Item =
  iKey :: "byte list"
  iValue :: bytes
  iMeta :: byte

record ParsedKey =
  Attr :: string
  PKUid :: uint64
  IsData :: bool

record env =
  p_Unmarshal :: "bytes \<Rightarrow> Posting option"
  pl_Marshal :: "PostingList \<Rightarrow> byte list option"
  bitPack :: "uint64 list \<Rightarrow> bytes"
  x_Parse :: "byte list \<Rightarrow> error + ParsedKey option"
  ss_GetCount :: "string \<Rightarrow> bool"
  x_CountKey :: "string \<Rightarrow> 32 word \<Rightarrow> bool \<Rightarrow> byte list"
  rangeOrder :: "(nat \<rightharpoonup> uint64 list) \<Rightarrow> nat list"

text \<open>
  One iteration of the loop, in the order of the source: the item is added to the posting
  list in hand (lines 80-88, \<open>addToPL\<close>); the iterator advances and the next key is
  extracted (lines 92-101); the current key is parsed (line 103); if the posting list ends
  here it is written out (lines 112-130, \<open>finalisePL\<close>) and its length recorded for the
  count index (lines 132-135, \<open>recordCount\<close>, the first use of the parsed key), both in
  \<open>finaliseStep\<close>; the next key is parsed, and when there is none or its attribute
  differs the count index is flushed (lines 145-172, \<open>flushStep\<close>, where the parsed key
  is used in the comparison and inside the loop over the counts). A fatal error ends the
  program: the writes made before it are not part of the result.
\<close>

definition deref :: "'a option \<Rightarrow> error + 'a" where
  "deref p = (case p of None \<Rightarrow> Inl NilDereference | Some v \<Rightarrow> Inr v)"

definition addToPL ::
  "env \<Rightarrow> Item \<Rightarrow> Posting list \<Rightarrow> uint64 list \<Rightarrow> error + Posting list \<times> uint64 list" where
  "addToPL E item postings uids =
     (if iMeta item = 1 then
        (case extractUID (iKey item) of
           Inl e \<Rightarrow> Inl e
         | Inr uid \<Rightarrow> Inr (postings, uids @ [uid]))
      else
        (case p_Unmarshal E (iValue item) of
           None \<Rightarrow> Inl (CheckFailed ''Unmarshal'')
         | Some p \<Rightarrow> Inr (postings @ [p], uids @ [PUid p])))"

definition finalisePL ::
  "env \<Rightarrow> byte list \<Rightarrow> Posting list \<Rightarrow> uint64 list \<Rightarrow> error + Write" where
  "finalisePL E k postings uids =
     (if length postings > 0 then
        (case pl_Marshal E \<lparr>Postings = postings, Uids = bitPack E uids\<rparr> of
           None \<Rightarrow> Inl (CheckFailed ''Marshal'')
         | Some plBuf \<Rightarrow>
             Inr \<lparr>wSite = PostingListWrite, wKey = k, wValue = Some plBuf, wMeta = 0\<rparr>)
      else Inr \<lparr>wSite = PostingListWrite, wKey = k, wValue = bitPack E uids, wMeta = 1\<rparr>)"

definition recordCount ::
  "env \<Rightarrow> ParsedKey \<Rightarrow> uint64 list \<Rightarrow> (nat \<rightharpoonup> uint64 list) \<Rightarrow> (nat \<rightharpoonup> uint64 list)" where
  "recordCount E parsedK uids counts =
     (if IsData parsedK \<and> ss_GetCount E (Attr parsedK) then
        (let cnt = length uids in
         counts(cnt \<mapsto> (case counts cnt of None \<Rightarrow> [] | Some l \<Rightarrow> l) @ [PKUid parsedK]))
      else counts)"

definition finaliseStep ::
  "env \<Rightarrow> bool \<Rightarrow> byte list \<Rightarrow> ParsedKey option \<Rightarrow> Posting list \<Rightarrow> uint64 list \<Rightarrow>
   (nat \<rightharpoonup> uint64 list) \<Rightarrow>
   error + Write list \<times> Posting list \<times> uint64 list \<times> (nat \<rightharpoonup> uint64 list)" where
  "finaliseStep E finalise k parsedK postings uids counts =
     (if finalise then
        (case finalisePL E k postings uids of
           Inl e \<Rightarrow> Inl e
         | Inr w \<Rightarrow>
             (case deref parsedK of
                Inl e \<Rightarrow> Inl e
              | Inr pk \<Rightarrow> Inr ([w], [], [], recordCount E pk uids counts)))
      else Inr ([], postings, uids, counts))"

definition flushStep ::
  "env \<Rightarrow> bool \<Rightarrow> byte list \<Rightarrow> ParsedKey option \<Rightarrow> (nat \<rightharpoonup> uint64 list) \<Rightarrow>
   error + Write list \<times> (nat \<rightharpoonup> uint64 list)" where
  "flushStep E valid newK parsedK counts =
     (case (if valid then x_Parse E newK else Inr None) of
        Inl e \<Rightarrow> Inl e
      | Inr parsedNewK \<Rightarrow>
          (case (if \<not> valid then Inr True
                 else (case deref parsedNewK of
                         Inl e \<Rightarrow> Inl e
                       | Inr pn \<Rightarrow>
                           (case deref parsedK of
                              Inl e \<Rightarrow> Inl e
                            | Inr pk \<Rightarrow> Inr (Attr pn \<noteq> Attr pk)))) of
             Inl e \<Rightarrow> Inl e
           | Inr flush \<Rightarrow>
               (if flush then
                  (if rangeOrder E counts = [] then Inr ([], Map.empty)
                   else (case deref parsedK of
                           Inl e \<Rightarrow> Inl e
                         | Inr pk \<Rightarrow>
                             Inr (flushCounts (x_CountKey E) (bitPack E) (Attr pk) counts
                                    (rangeOrder E counts), Map.empty)))
                else Inr ([], counts))))"

fun buildPostingLists_loop ::
  "env \<Rightarrow> Item list \<Rightarrow> byte list \<Rightarrow> Posting list \<Rightarrow> uint64 list \<Rightarrow>
   (nat \<rightharpoonup> uint64 list) \<Rightarrow> error + Write list" where
  "buildPostingLists_loop E [] k postings uids counts = Inr []"
| "buildPostingLists_loop E (item # rest) k postings uids counts =
     (case addToPL E item postings uids of
        Inl e \<Rightarrow> Inl e
      | Inr (postings1, uids1) \<Rightarrow>
          (case (case rest of [] \<Rightarrow> Inr [] | nxt # _ \<Rightarrow> extractPLKey (iKey nxt)) of
             Inl e \<Rightarrow> Inl e
           | Inr newK \<Rightarrow>
               (case x_Parse E k of
                  Inl e \<Rightarrow> Inl e
                | Inr parsedK \<Rightarrow>
                    (case finaliseStep E (rest = [] \<or> Compare newK k \<noteq> 0) k parsedK
                            postings1 uids1 counts of
                       Inl e \<Rightarrow> Inl e
                     | Inr (plWrites, postings2, uids2, counts1) \<Rightarrow>
                         (case flushStep E (rest \<noteq> []) newK parsedK counts1 of
                            Inl e \<Rightarrow> Inl e
                          | Inr (countWrites, counts2) \<Rightarrow>
                              (case buildPostingLists_loop E rest newK postings2 uids2 counts2 of
                                 Inl e \<Rightarrow> Inl e
                               | Inr ws \<Rightarrow> Inr (plWrites @ countWrites @ ws)))))))"

definition buildPostingLists :: "env \<Rightarrow> Item list \<Rightarrow> error + Write list" where
  "buildPostingLists E items =
     (case items of
        [] \<Rightarrow> Inr []
      | item # _ \<Rightarrow>
          (case extractPLKey (iKey item) of
             Inl e \<Rightarrow> Inl e
           | Inr k \<Rightarrow> buildPostingLists_loop E items k [] [] Map.empty))"

text \<open>The store \<^verbatim>\<open>target\<close> after a list of writes: \<^verbatim>\<open>target.Set\<close> overwrites.\<close>

definition applyWrites :: "KV \<Rightarrow> Write list \<Rightarrow> KV" where
  "applyWrites kv ws = foldl (\<lambda>kv w. kv_Set kv (wKey w) (wValue w) (wMeta w)) kv ws"


section \<open>Definitions used only in the statements about reduce and the finalizer\<close>

text \<open>The maximal runs of adjacent elements with the same key.\<close>

function runs :: "('a \<Rightarrow> 'k) \<Rightarrow> 'a list \<Rightarrow> 'a list list" where
  "runs f [] = []"
| "runs f (x # xs) =
     (x # takeWhile (\<lambda>y. f y = f x) xs) # runs f (dropWhile (\<lambda>y. f y = f x) xs)"
  by pat_completeness auto
termination runs
  by (relation "measure (\<lambda>(f, xs). length xs)") (auto simp: less_Suc_eq_le length_dropWhile_le)

text \<open>The UID that \<^verbatim>\<open>reduce\<close> appends for a map entry, the entry it emits for a run of
  map entries (\<open>pack\<close> is what \<open>DeltaPack\<close> returns where it returns), and the closing
  step of \<^verbatim>\<open>reduce\<close> after its loop.\<close>

definition mapEntryUid :: "MapEntry \<Rightarrow> uint64" where
  "mapEntryUid m = (case Posting m of None \<Rightarrow> Uid m | Some p \<Rightarrow> PUid p)"

definition encodeRun ::
  "(uint64 list \<Rightarrow> bytes) \<Rightarrow> (PostingList \<Rightarrow> byte list option) \<Rightarrow> MapEntry list \<Rightarrow> Entry" where
  "encodeRun pack MarshalTo r =
     (if List.map_filter Posting r = []
      then \<lparr>EKey = Key (last r), EValue = pack (map mapEntryUid r), UserMeta = 1\<rparr>
      else \<lparr>EKey = Key (last r),
            EValue = MarshalTo \<lparr>Postings = List.map_filter Posting r,
                                Uids = pack (map mapEntryUid r)\<rparr>,
            UserMeta = 0\<rparr>)"

definition reduce_finish ::
  "(uint64 list \<Rightarrow> error + bytes) \<Rightarrow> (PostingList \<Rightarrow> byte list option) \<Rightarrow>
   error + bytes \<times> uint64 list \<times> PostingList \<times> Entry list \<Rightarrow> error + Entry list" where
  "reduce_finish DeltaPack MarshalTo r =
     (case r of
        Inl e \<Rightarrow> Inl e
      | Inr (currentKey, uids, pl, entries) \<Rightarrow>
          (case outputPostingList DeltaPack MarshalTo currentKey uids pl entries of
             Inl e \<Rightarrow> Inl e
           | Inr (_, _, entries') \<Rightarrow> Inr entries'))"

text \<open>The posting-list key, the UID and the posting (if any) of an item of the auxiliary
  store, the write of the finalizer for a run of items, and the items the finalizer reads
  without a fatal error: the key is longer than eight bytes, the value of an item that
  is not tagged 1 unmarshals, and the posting-list key parses.\<close>

definition plKey :: "Item \<Rightarrow> byte list" where
  "plKey it = take (length (iKey it) - 8) (iKey it)"

definition itemUid :: "env \<Rightarrow> Item \<Rightarrow> uint64" where
  "itemUid E it =
     (if iMeta it = 1 then Uint64 (drop (length (iKey it) - 8) (iKey it))
      else (case p_Unmarshal E (iValue it) of None \<Rightarrow> 0 | Some p \<Rightarrow> PUid p))"

definition itemPosting :: "env \<Rightarrow> Item \<Rightarrow> Posting option" where
  "itemPosting E it = (if iMeta it = 1 then None else p_Unmarshal E (iValue it))"

definition finalWrite :: "env \<Rightarrow> Item list \<Rightarrow> Write" where
  "finalWrite E r =
     (if List.map_filter (itemPosting E) r = []
      then \<lparr>wSite = PostingListWrite, wKey = plKey (hd r),
            wValue = bitPack E (map (itemUid E) r), wMeta = 1\<rparr>
      else \<lparr>wSite = PostingListWrite, wKey = plKey (hd r),
            wValue = pl_Marshal E \<lparr>Postings = List.map_filter (itemPosting E) r,
                                   Uids = bitPack E (map (itemUid E) r)\<rparr>,
            wMeta = 0\<rparr>)"

definition wellFormed :: "env \<Rightarrow> Item \<Rightarrow> bool" where
  "wellFormed E it \<longleftrightarrow>
     length (iKey it) > 8 \<and> (iMeta it = 1 \<or> p_Unmarshal E (iValue it) \<noteq> None) \<and>
     (\<exists>pk. x_Parse E (plKey it) = Inr (Some pk))"

text \<open>
  The entry the specification asks of \<^verbatim>\<open>reduce\<close> for a key, from all the map entries of
  that key: with no value-bearing entry the packed sequence of the UIDs with tag 1;
  otherwise the serialised posting list of the value-bearing postings and the packed
  sequence of all the UIDs, with tag 0.
\<close>

definition expectedEntry ::
  "(uint64 list \<Rightarrow> bytes) \<Rightarrow> (PostingList \<Rightarrow> byte list option) \<Rightarrow> byte list \<Rightarrow>
   MapEntry list \<Rightarrow> Entry" where
  "expectedEntry pack MarshalTo k ms =
     (let valueBearing = List.map_filter Posting ms;
          allUids = map mapEntryUid ms
      in if valueBearing = []
         then \<lparr>EKey = Some k, EValue = pack allUids, UserMeta = 1\<rparr>
         else \<lparr>EKey = Some k,
               EValue = MarshalTo \<lparr>Postings = valueBearing, Uids = pack allUids\<rparr>,
               UserMeta = 0\<rparr>)"


section \<open>Stand-ins for the functions of other packages, used in the examples\<close>

text \<open>
  The encoders: a list of UIDs packs to the eight big-endian bytes of each UID, and the
  packing of \<^verbatim>\<open>reduce\<close> is fatal on the empty list; a posting serialises to the eight
  bytes of its UID followed by its value, and a posting list to its postings followed by
  its packed UIDs.
\<close>

definition examplePack :: "uint64 list \<Rightarrow> bytes" where
  "examplePack us = Some (concat (map PutUint64 us))"

definition exampleDeltaPack :: "uint64 list \<Rightarrow> error + bytes" where
  "exampleDeltaPack us =
     (if us = [] then Inl (AssertionFailed ''DeltaPack of an empty list'')
      else Inr (examplePack us))"

definition exampleMarshal :: "PostingList \<Rightarrow> byte list option" where
  "exampleMarshal pl =
     Some (concat (map (\<lambda>p. PutUint64 (PUid p) @ PValue p) (Postings pl)) @ bytesOf (Uids pl))"

definition examplePostingMarshal :: "Posting \<Rightarrow> byte list option" where
  "examplePostingMarshal p = Some (PutUint64 (PUid p) @ PValue p)"

definition exampleUnmarshal :: "bytes \<Rightarrow> Posting option" where
  "exampleUnmarshal v =
     (if length (bytesOf v) < 8 then None
      else Some \<lparr>PUid = Uint64 (take 8 (bytesOf v)), PValue = drop 8 (bytesOf v),
                 PostingType = Posting_VALUE\<rparr>)"

text \<open>
  The parser of keys. The stand-in reads the layout of the keys of the database: one
  prefix byte, the length of the attribute in two bytes (big-endian), the attribute, one
  byte for the kind of key (0 data, 2 index, 4 reverse, 8 and 12 count) and the rest: the
  UID in eight bytes for a data or reverse key, the term for an index key, the count in
  four bytes for a count key. Reading past the end of the key is a panic; a key of another
  kind gives nil. Only a data key is a data key for \<^verbatim>\<open>IsData\<close>.
\<close>

definition exampleParse :: "byte list \<Rightarrow> error + ParsedKey option" where
  "exampleParse key =
     (if length key < 3 then Inl SliceOutOfRange
      else
        (let sz = unat (key ! 1) * 256 + unat (key ! 2);
             k = drop 3 key
         in if length k < sz + 1 then Inl SliceOutOfRange
            else
              (let attr = map (\<lambda>b. char_of (unat b)) (take sz k);
                   byteType = k ! sz;
                   rest = drop (sz + 1) k
               in if byteType = 0 \<or> byteType = 4 then
                    (if length rest < 8 then Inl SliceOutOfRange
                     else Inr (Some \<lparr>Attr = attr, PKUid = Uint64 rest, IsData = (byteType = 0)\<rparr>))
                  else if byteType = 2 then
                    Inr (Some \<lparr>Attr = attr, PKUid = 0, IsData = False\<rparr>)
                  else if byteType = 8 \<or> byteType = 12 then
                    (if length rest < 4 then Inl SliceOutOfRange
                     else Inr (Some \<lparr>Attr = attr, PKUid = 0, IsData = False\<rparr>))
                  else Inr None)))"

text \<open>
  The key of a count-index entry in the same layout; the keys of a count map visited in
  ascending order (for the maps of the examples, whose keys are below 16); a schema in
  which every attribute has a count index.
\<close>

definition exampleCountKey :: "string \<Rightarrow> 32 word \<Rightarrow> bool \<Rightarrow> byte list" where
  "exampleCountKey attr c r =
     [0, of_nat (length attr div 256), of_nat (length attr)] @
     map (\<lambda>c. of_nat (of_char c)) attr @
     [if r then 12 else 8, ucast (drop_bit 24 c), ucast (drop_bit 16 c), ucast (drop_bit 8 c),
      ucast c]"

definition exampleOrder :: "(nat \<rightharpoonup> uint64 list) \<Rightarrow> nat list" where
  "exampleOrder counts = filter (\<lambda>i. counts i \<noteq> None) [0..<16]"

definition exampleEnv :: env where
  "exampleEnv = \<lparr>p_Unmarshal = exampleUnmarshal, pl_Marshal = exampleMarshal,
                  bitPack = examplePack, x_Parse = exampleParse, ss_GetCount = (\<lambda>attr. True),
                  x_CountKey = exampleCountKey, rangeOrder = exampleOrder\<rparr>"

text \<open>
  Two index keys of the attribute \<open>name\<close>: for the term \<open>a\<close>, and for the term \<open>a\<close>
  followed by a zero byte. A reference posting, and the item of the auxiliary store that
  \<^verbatim>\<open>addPosting\<close> stores for a reference posting of a key.
\<close>

definition nameA :: "byte list" where
  "nameA = [0, 0, 4, 110, 97, 109, 101, 2, 97]"

definition nameA0 :: "byte list" where
  "nameA0 = [0, 0, 4, 110, 97, 109, 101, 2, 97, 0]"

definition refPosting :: "uint64 \<Rightarrow> Posting" where
  "refPosting uid = \<lparr>PUid = uid, PValue = [], PostingType = Posting_REF\<rparr>"

definition refItem :: "byte list \<Rightarrow> uint64 \<Rightarrow> Item" where
  "refItem k uid = \<lparr>iKey = compositeKey k uid, iValue = None, iMeta = 1\<rparr>"


section \<open>Facts about byte comparison and the big-endian encoding\<close>

lemma Compare_refl: "Compare xs xs = 0"
  by (induction xs) auto

lemma Compare_append_same: "Compare (k @ xs) (k @ ys) = Compare xs ys"
  by (induction k) auto

lemma be_nat_bound: "be_nat xs < 256 ^ length xs"
proof (induction xs)
  case Nil
  show ?case by simp
next
  case (Cons x xs)
  have x: "unat x < 256"
    using unsigned_less[of x, where ?'a = nat] by simp
  then have "unat x * 256 ^ length xs + be_nat xs < (unat x + 1) * 256 ^ length xs"
    using Cons by simp
  also have "\<dots> \<le> 256 * 256 ^ length xs"
    using x by (intro mult_le_mono1) simp
  finally show ?case by simp
qed

lemma Compare_be_nat:
  "length xs = length ys \<Longrightarrow>
   Compare xs ys =
     (if be_nat xs < be_nat ys then -1 else if be_nat ys < be_nat xs then 1 else 0)"
proof (induction xs ys rule: Compare.induct)
  case (4 x xs y ys)
  have bx: "be_nat xs < 256 ^ length xs" and bys: "be_nat ys < 256 ^ length xs"
    using be_nat_bound[of xs] be_nat_bound[of ys] 4 by auto
  show ?case
  proof (cases "x < y")
    case True
    then have "unat x + 1 \<le> unat y" by (simp add: word_less_nat_alt)
    then have "(unat x + 1) * 256 ^ length xs \<le> unat y * 256 ^ length xs"
      by (rule mult_le_mono1)
    with bx have "be_nat (x # xs) < be_nat (y # ys)" using 4 by simp
    with True show ?thesis by simp
  next
    case False
    show ?thesis
    proof (cases "y < x")
      case True
      then have "unat y + 1 \<le> unat x" by (simp add: word_less_nat_alt)
      then have "(unat y + 1) * 256 ^ length xs \<le> unat x * 256 ^ length xs"
        by (rule mult_le_mono1)
      with bys have "be_nat (y # ys) < be_nat (x # xs)" using 4 by simp
      with True False show ?thesis by simp
    next
      case ge: False
      with False have "x = y" by simp
      with 4 False ge show ?thesis by simp
    qed
  qed
qed simp_all

lemma unat_byte:
  "unat (ucast (drop_bit k (v::uint64)) :: byte) = (unat v div 2 ^ k) mod 256"
  by (simp add: unsigned_ucast_eq unat_drop_bit_eq take_bit_eq_mod) (simp add: drop_bit_eq_div)

lemma be_nat_PutUint64: "be_nat (PutUint64 v) = unat v"
proof -
  have b: "unat v < 2 ^ 64"
    using unsigned_less[of v, where ?'a = nat] by simp
  have u0: "unat (ucast v :: byte) = unat v mod 256"
    by (simp add: unsigned_ucast_eq take_bit_eq_mod)
  define n where "n = unat v"
  have 1: "n div 256 mod 256 * 256 + n mod 256 = n mod 65536"
    using mod_mult2_eq[of n 256 256] by simp
  have 2: "n div 65536 mod 256 * 65536 + n mod 65536 = n mod 16777216"
    using mod_mult2_eq[of n 65536 256] by simp
  have 3: "n div 16777216 mod 256 * 16777216 + n mod 16777216 = n mod 4294967296"
    using mod_mult2_eq[of n 16777216 256] by simp
  have 4: "n div 4294967296 mod 256 * 4294967296 + n mod 4294967296 = n mod 1099511627776"
    using mod_mult2_eq[of n 4294967296 256] by simp
  have 5: "n div 1099511627776 mod 256 * 1099511627776 + n mod 1099511627776
            = n mod 281474976710656"
    using mod_mult2_eq[of n 1099511627776 256] by simp
  have 6: "n div 281474976710656 mod 256 * 281474976710656 + n mod 281474976710656
            = n mod 72057594037927936"
    using mod_mult2_eq[of n 281474976710656 256] by simp
  have 7: "n div 72057594037927936 * 72057594037927936 + n mod 72057594037927936 = n"
    by simp
  have "be_nat (PutUint64 v) =
     n div 72057594037927936 * 72057594037927936 +
     (n div 281474976710656 mod 256 * 281474976710656 +
      (n div 1099511627776 mod 256 * 1099511627776 +
       (n div 4294967296 mod 256 * 4294967296 +
        (n div 16777216 mod 256 * 16777216 +
         (n div 65536 mod 256 * 65536 +
          (n div 256 mod 256 * 256 + n mod 256))))))"
    unfolding PutUint64_def n_def using b by (simp add: unat_byte u0)
  also have "\<dots> = n" using 1 2 3 4 5 6 7 by linarith
  finally show ?thesis by (simp add: n_def)
qed

lemma length_PutUint64: "length (PutUint64 v) = 8"
  by (simp add: PutUint64_def)

lemma Compare_PutUint64:
  "Compare (PutUint64 u1) (PutUint64 u2) = (if u1 < u2 then -1 else if u2 < u1 then 1 else 0)"
  by (simp add: Compare_be_nat length_PutUint64 be_nat_PutUint64 word_less_nat_alt)

lemma byte_bit:
  "k + 8 \<le> 64 \<Longrightarrow>
   bit (push_bit k (ucast (ucast (drop_bit k (v::uint64)) :: byte)) :: uint64) n =
   (k \<le> n \<and> n < k + 8 \<and> bit v n)"
  by (auto simp: bit_simps dest: bit_imp_le_length)

lemma byte_bit0:
  "bit (ucast (ucast (v::uint64) :: byte) :: uint64) n = (n < 8 \<and> bit v n)"
  by (auto simp: bit_simps)

lemma Uint64_PutUint64: "Uint64 (PutUint64 v) = v"
proof (rule bit_word_eqI)
  fix n assume "n < LENGTH(64)"
  then have n: "n < 64" by simp
  have "bit (Uint64 (PutUint64 v)) n =
     (bit v n \<and> (n < 8 \<or> 8 \<le> n \<and> n < 16 \<or> 16 \<le> n \<and> n < 24 \<or> 24 \<le> n \<and> n < 32 \<or>
        32 \<le> n \<and> n < 40 \<or> 40 \<le> n \<and> n < 48 \<or> 48 \<le> n \<and> n < 56 \<or> 56 \<le> n \<and> n < 64))"
    unfolding Uint64_def PutUint64_def
    by (simp add: bit_or_iff byte_bit byte_bit0) blast
  also have "\<dots> = bit v n" using n by arith
  finally show "bit (Uint64 (PutUint64 v)) n = bit v n" .
qed

lemma Compare_compositeKey:
  "Compare (compositeKey k u1) (compositeKey k u2) =
     (if u1 < u2 then -1 else if u2 < u1 then 1 else 0)"
  by (simp add: compositeKey_def Compare_append_same Compare_PutUint64)

section \<open>The staged ingestor: claims\<close>

text \<open>
  C7. For every posting-list key and every posting whose kind is reference-only or
  scalar-value, \<^verbatim>\<open>addPosting\<close> stores one record in the auxiliary store under the key
  made of the posting-list key followed by the posting's UID as 8 big-endian bytes: a
  reference-only posting with a null value and tag 1, a scalar-value posting with its
  serialized form and tag 0. Every other record of the store is left as it was. (A
  serialization that fails is fatal and stores nothing.)
\<close>

theorem addPosting_stores:
  "(PostingType posting = Posting_REF \<longrightarrow>
      addPosting Marshal kv postingListKey posting =
        Inr (kv(postingListKey @ PutUint64 (PUid posting) \<mapsto> (None, 1)))) \<and>
   (PostingType posting = Posting_VALUE \<longrightarrow>
      (\<forall>val. Marshal posting = Some val \<longrightarrow>
         addPosting Marshal kv postingListKey posting =
           Inr (kv(postingListKey @ PutUint64 (PUid posting) \<mapsto> (Some val, 0)))) \<and>
      (Marshal posting = None \<longrightarrow>
         addPosting Marshal kv postingListKey posting = Inl (CheckFailed ''marshal'')))"
  by (simp add: addPosting_def kv_Set_def compositeKey_def)

theorem addPosting_stores_witness:
  "addPosting (\<lambda>p. Some (PValue p)) Map.empty [1, 2]
      \<lparr>PUid = 5, PValue = [7], PostingType = Posting_REF\<rparr> =
     Inr [[1, 2, 0, 0, 0, 0, 0, 0, 0, 5] \<mapsto> (None, 1)] \<and>
   addPosting (\<lambda>p. Some (PValue p)) Map.empty [1, 2]
      \<lparr>PUid = 258, PValue = [7], PostingType = Posting_VALUE\<rparr> =
     Inr [[1, 2, 0, 0, 0, 0, 0, 0, 1, 2] \<mapsto> (Some [7], 0)]"
proof -
  have b: "(258 :: byte) = 2" by simp
  show ?thesis
    using addPosting_stores[of "\<lparr>PUid = 5, PValue = [7], PostingType = Posting_REF\<rparr>"
        "\<lambda>p. Some (PValue p)" Map.empty "[1, 2]"]
      addPosting_stores[of "\<lparr>PUid = 258, PValue = [7], PostingType = Posting_VALUE\<rparr>"
        "\<lambda>p. Some (PValue p)" Map.empty "[1, 2]"]
    by (simp add: PutUint64_def b)
qed

text \<open>
  C8. The defensive checks of the staged path are fatal and store nothing:
  \<^verbatim>\<open>addPosting\<close> returns a store only when the posting's kind is reference-only or
  scalar-value, and aborts on the assertion for a value-with-language posting and for any
  unknown kind; \<^verbatim>\<open>extractPLKey\<close> aborts on the assertion for every key of 8 bytes or
  fewer.
\<close>

theorem staged_assertions_fatal:
  "(\<forall>kv'. addPosting Marshal kv postingListKey posting = Inr kv' \<longrightarrow>
      PostingType posting = Posting_REF \<or> PostingType posting = Posting_VALUE) \<and>
   (PostingType posting = Posting_VALUE_LANG \<longrightarrow>
      addPosting Marshal kv postingListKey posting =
        Inl (AssertionFailed ''values not yet supported'')) \<and>
   (\<forall>n. PostingType posting = Posting_Other n \<longrightarrow>
      addPosting Marshal kv postingListKey posting =
        Inl (AssertionFailed ''unknown posting type'')) \<and>
   (length kvKey \<le> 8 \<longrightarrow>
      extractPLKey kvKey = Inl (AssertionFailed ''unexpected key size''))"
  by (auto simp: addPosting_def extractPLKey_def Let_def split: PostingType.splits option.splits)

theorem staged_assertions_fatal_witness:
  "addPosting (\<lambda>p. Some (PValue p)) Map.empty [1, 2]
      \<lparr>PUid = 5, PValue = [7], PostingType = Posting_VALUE_LANG\<rparr> =
     Inl (AssertionFailed ''values not yet supported'') \<and>
   addPosting (\<lambda>p. Some (PValue p)) Map.empty [1, 2]
      \<lparr>PUid = 5, PValue = [7], PostingType = Posting_Other 9\<rparr> =
     Inl (AssertionFailed ''unknown posting type'') \<and>
   extractPLKey [1, 2, 3, 4, 5, 6, 7, 8] = Inl (AssertionFailed ''unexpected key size'')"
  using staged_assertions_fatal[of "\<lambda>p. Some (PValue p)" Map.empty "[1, 2]"
      "\<lparr>PUid = 5, PValue = [7], PostingType = Posting_VALUE_LANG\<rparr>" "[1, 2, 3, 4, 5, 6, 7, 8]"]
    staged_assertions_fatal[of "\<lambda>p. Some (PValue p)" Map.empty "[1, 2]"
      "\<lparr>PUid = 5, PValue = [7], PostingType = Posting_Other 9\<rparr>" "[]"]
  by simp

text \<open>
  C10. The composite key round-trips and keeps the order of UIDs: for every non-empty
  posting-list key \<open>k\<close> and every UID \<open>u\<close>, \<^verbatim>\<open>extractPLKey\<close> of \<open>k\<close> followed by the 8
  big-endian bytes of \<open>u\<close> is \<open>k\<close> and \<^verbatim>\<open>extractUID\<close> of it is \<open>u\<close>; for \<open>u1 < u2\<close> the
  composite key of \<open>(k, u1)\<close> is below that of \<open>(k, u2)\<close> in byte order; hence whenever
  composite keys of one posting-list key come in ascending byte order, as the store's
  iterator yields them, their UIDs ascend.
\<close>

theorem compositeKey_roundtrip_order:
  "(k \<noteq> [] \<longrightarrow> extractPLKey (compositeKey k u) = Inr k) \<and>
   extractUID (compositeKey k u) = Inr u \<and>
   (u1 < u2 \<longrightarrow> Compare (compositeKey k u1) (compositeKey k u2) < 0) \<and>
   (sorted_wrt (\<lambda>a b. Compare a b < 0) (map (compositeKey k) us) \<longrightarrow> sorted_wrt (<) us)"
proof (intro conjI impI)
  assume "k \<noteq> []"
  then show "extractPLKey (compositeKey k u) = Inr k"
    by (simp add: extractPLKey_def compositeKey_def length_PutUint64)
next
  show "extractUID (compositeKey k u) = Inr u"
    by (simp add: extractUID_def compositeKey_def length_PutUint64 Uint64_PutUint64)
next
  assume "u1 < u2"
  then show "Compare (compositeKey k u1) (compositeKey k u2) < 0"
    by (simp add: Compare_compositeKey)
next
  assume "sorted_wrt (\<lambda>a b. Compare a b < 0) (map (compositeKey k) us)"
  then have "sorted_wrt (\<lambda>a b. Compare (compositeKey k a) (compositeKey k b) < 0) us"
    by (simp add: sorted_wrt_map)
  then show "sorted_wrt (<) us"
    by (rule sorted_wrt_mono_rel[rotated]) (simp add: Compare_compositeKey split: if_splits)
qed

theorem compositeKey_roundtrip_order_witness:
  "extractPLKey (compositeKey [1, 2] 258) = Inr [1, 2] \<and>
   extractUID (compositeKey [1, 2] 258) = Inr 258 \<and>
   Compare (compositeKey [1, 2] 255) (compositeKey [1, 2] 256) < 0 \<and>
   sorted_wrt (<) [3, 255, 256 :: uint64]"
proof -
  have s: "sorted_wrt (\<lambda>a b. Compare a b < 0) (map (compositeKey [1, 2]) [3, 255, 256])"
    by (simp add: compositeKey_def PutUint64_def)
  show ?thesis
    using compositeKey_roundtrip_order[of "[1, 2]" 258 255 256 "[3, 255, 256]"] s
    by simp
qed


section \<open>The record decoder: claim\<close>

lemma readMapOutput_short_file:
  "length file < 10 \<Longrightarrow> readMapOutput Unmarshal file = Inr []"
  by (simp add: readMapOutput_def readMapOutput_loop.simps Peek_def MaxVarintLen64_def)

text \<open>
  C5. The claim: for every well-formed shard file the decoder emits one entry per frame,
  in file order, all frames of the file, also those that start fewer than ten bytes (the
  maximum width of a varint header) before the end of the file. The code stops at the
  first \<^verbatim>\<open>Peek\<close> that reports \<^verbatim>\<open>io.EOF\<close>, which happens as soon as fewer than ten bytes
  are left, whatever they hold: the one-frame file \<open>02 10 05\<close> (length 2, two bytes of
  record) yields no entry, and in the file made of a ten-byte frame followed by that
  frame only the first is emitted.
\<close>

theorem readMapOutput_drops_short_tail:
  "readMapOutput Unmarshal [2, 16, 5] = Inr [] \<and>
   readMapOutput (\<lambda>bs. Some \<lparr>Key = Some bs, Uid = 0, Posting = None\<rparr>)
       [9, 1, 2, 3, 4, 5, 6, 7, 8, 9, 2, 16, 5] =
     Inr [\<lparr>Key = Some [1, 2, 3, 4, 5, 6, 7, 8, 9], Uid = 0, Posting = None\<rparr>]"
  by (simp add: readMapOutput_def readMapOutput_loop.simps Peek_def MaxVarintLen64_def
      Uvarint_def)

section \<open>The write concurrency gate: claim\<close>

lemma filter_update_in:
  "i < length xs \<Longrightarrow> \<not> P (xs ! i) \<Longrightarrow> P v \<Longrightarrow>
   length (filter P (xs[i := v])) = Suc (length (filter P xs))"
proof (induction xs arbitrary: i)
  case Nil
  then show ?case by simp
next
  case (Cons x xs)
  then show ?case by (cases i) auto
qed

lemma filter_update_out:
  "i < length xs \<Longrightarrow> P (xs ! i) \<Longrightarrow> \<not> P v \<Longrightarrow>
   Suc (length (filter P (xs[i := v]))) = length (filter P xs)"
proof (induction xs arbitrary: i)
  case Nil
  then show ?case by simp
next
  case (Cons x xs)
  then show ?case by (cases i) auto
qed

lemma gate_step_inv:
  assumes "gate_step K s s'"
    and "pendingBadgerWrites s = holding s + inflight s" "pendingBadgerWrites s \<le> K"
  shows "pendingBadgerWrites s' = holding s' + inflight s' \<and> pendingBadgerWrites s' \<le> K"
  using assms(1)
proof (cases rule: gate_step.cases)
  case (acquire i)
  then show ?thesis
    using assms(2,3) filter_update_in[of i "workers s" "\<lambda>pc. pc = BeforeWrite" BeforeWrite]
    by (simp add: holding_def)
next
  case (issue i)
  then show ?thesis
    using assms(2,3) filter_update_out[of i "workers s" "\<lambda>pc. pc = BeforeWrite" BeforeSend]
    by (simp add: holding_def)
next
  case callback
  then show ?thesis using assms(2,3) by (simp add: holding_def)
qed

lemma reachable_inv:
  "reachable K n s \<Longrightarrow>
   pendingBadgerWrites s = holding s + inflight s \<and> pendingBadgerWrites s \<le> K"
proof (induction rule: reachable.induct)
  case init
  show ?case by (simp add: gate_init_def holding_def)
next
  case (step s s')
  then show ?case using gate_step_inv by blast
qed

text \<open>
  C9. In every execution of the reduce stage (any number \<open>n\<close> of workers, any interleaving)
  the number of write batches issued to the store whose completion callback has not yet
  released its slot never exceeds the capacity \<open>K\<close> of the gate: the slot is taken before
  the write is issued and given back only by that write's callback. The callback's
  receive always finds an element, so it never blocks.
\<close>

theorem inflight_bounded:
  "reachable K n s \<Longrightarrow>
   inflight s \<le> K \<and> (0 < inflight s \<longrightarrow> 0 < pendingBadgerWrites s)"
  using reachable_inv[of K n s] by auto

theorem inflight_bounded_witness:
  "reachable 1 2
     \<lparr>pendingBadgerWrites = 1, workers = [BeforeSend, BeforeSend], inflight = 1\<rparr> \<and>
   inflight \<lparr>pendingBadgerWrites = 1, workers = [BeforeSend, BeforeSend], inflight = 1\<rparr> \<le> 1"
proof -
  define t where
    "t = \<lparr>pendingBadgerWrites = 1, workers = [BeforeWrite, BeforeSend], inflight = 0\<rparr>"
  have 0: "reachable 1 2 (gate_init 2)" by (rule reachable.init)
  have "gate_step 1 (gate_init 2)
     ((gate_init 2)\<lparr>pendingBadgerWrites := pendingBadgerWrites (gate_init 2) + 1,
        workers := (workers (gate_init 2))[0 := BeforeWrite]\<rparr>)"
    by (rule gate_step.acquire) (simp_all add: gate_init_def)
  then have s1: "gate_step 1 (gate_init 2) t"
    by (simp add: gate_init_def numeral_2_eq_2 t_def)
  have 1: "reachable 1 2 t" by (rule reachable.step[OF 0 s1])
  have "gate_step 1 t (t\<lparr>inflight := inflight t + 1, workers := (workers t)[0 := BeforeSend]\<rparr>)"
    by (rule gate_step.issue) (simp_all add: t_def)
  then have s2: "gate_step 1 t
      \<lparr>pendingBadgerWrites = 1, workers = [BeforeSend, BeforeSend], inflight = 1\<rparr>"
    by (simp add: t_def)
  have 2: "reachable 1 2
      \<lparr>pendingBadgerWrites = 1, workers = [BeforeSend, BeforeSend], inflight = 1\<rparr>"
    by (rule reachable.step[OF 1 s2])
  show ?thesis using inflight_bounded[OF 2] 2 by simp
qed

section \<open>The count index flush: claim\<close>

lemma flushCounts_loop_flushed:
  "flushCounts_loop CK BP attr counts h order =
     map (countIndexEntry CK BP attr counts) (flushed h order)"
  by (induction order arbitrary: h) auto

lemma set_flushed:
  "- 1 \<le> h \<Longrightarrow>
   set (flushed h order) \<union> {i. int i \<le> h} = {i. int i \<le> h \<or> (\<exists>c\<in>set order. i \<le> c)}"
proof (induction order arbitrary: h)
  case Nil
  then show ?case by simp
next
  case (Cons c cs)
  have IH: "set (flushed (int c) cs) \<union> {i. int i \<le> int c} =
        {i. int i \<le> int c \<or> (\<exists>c'\<in>set cs. i \<le> c')}"
    by (rule Cons.IH) simp
  have "set [nat (h + 1) ..< Suc c] = {i. h < int i \<and> i \<le> c}"
    using Cons.prems by auto
  then show ?case using IH by auto
qed

lemma set_flushed_all:
  assumes "order \<noteq> []"
  shows "set (flushed (- 1) order) = {0..Max (set order)}"
proof -
  have "set (flushed (- 1) order) \<union> {i. int i \<le> - 1} =
        {i. int i \<le> - 1 \<or> (\<exists>c\<in>set order. i \<le> c)}"
    by (rule set_flushed) simp
  then have "set (flushed (- 1) order) = {i. \<exists>c\<in>set order. i \<le> c}" by simp
  also have "\<dots> = {0..Max (set order)}"
    using assms by (auto simp: Max_ge_iff)
  finally show ?thesis .
qed

lemma upt_join: "a \<le> b \<Longrightarrow> b \<le> c \<Longrightarrow> [a..<b] @ [b..<c] = [a..<c::nat]"
  using upt_add_eq_append[of a b "c - b"] by simp

lemma flushed_sorted:
  "sorted order \<Longrightarrow> distinct order \<Longrightarrow> order \<noteq> [] \<Longrightarrow> (\<forall>c\<in>set order. h < int c) \<Longrightarrow>
   - 1 \<le> h \<Longrightarrow> flushed h order = [nat (h + 1) ..< Suc (last order)]"
proof (induction order arbitrary: h)
  case Nil
  then show ?case by simp
next
  case (Cons c cs)
  show ?case
  proof (cases "cs = []")
    case True
    then show ?thesis by simp
  next
    case False
    have lt: "\<forall>d\<in>set cs. int c < int d"
      using Cons.prems(1,2) by (auto simp: le_less)
    have "flushed (int c) cs = [nat (int c + 1) ..< Suc (last cs)]"
      using Cons.prems False lt by (intro Cons.IH) auto
    then have 1: "flushed (int c) cs = [Suc c ..< Suc (last cs)]"
      by (simp add: nat_add_distrib)
    have 2: "c \<le> last cs" using lt False by (auto simp: less_imp_le)
    have 3: "nat (h + 1) \<le> Suc c" using Cons.prems by auto
    show ?thesis
      using False 1 upt_join[OF 3, of "Suc (last cs)"] 2 by simp
  qed
qed

lemma sorted_last_Max:
  "sorted xs \<Longrightarrow> xs \<noteq> [] \<Longrightarrow> last xs = Max (set (xs::nat list))"
proof (induction xs)
  case Nil
  then show ?case by simp
next
  case (Cons x xs)
  show ?case
  proof (cases "xs = []")
    case True
    then show ?thesis by simp
  next
    case False
    then have "last xs = Max (set xs)" using Cons by simp
    moreover have "x \<le> Max (set xs)"
    proof -
      obtain y where y: "y \<in> set xs" using False by (cases xs) auto
      then have "x \<le> y" using Cons.prems(1) by auto
      then show ?thesis using y False by (auto simp: Max_ge_iff)
    qed
    ultimately show ?thesis using False by (simp add: max_def)
  qed
qed

text \<open>
  C4. When the count map is flushed (its keys visited in any order \<open>order\<close>), the entries
  written are exactly those of the counts 0 up to the largest count of the map: a count
  of the map gets the packed list of its UIDs with tag 1, a count missing from the map
  gets the null value with tag 0. When the keys happen to be visited in ascending order
  every count from 0 to the largest is written once, in order. (The lists of the map are
  never empty: the builder only appends to them.)
\<close>

theorem flushCounts_dense:
  assumes "set order = dom counts" and "order \<noteq> []"
    and "\<forall>us\<in>ran counts. us \<noteq> []"
  shows "set (flushCounts CK BP attr counts order) =
           (\<lambda>i. case counts i of
                   Some us \<Rightarrow> \<lparr>wSite = CountIndexWrite, wKey = CK attr (of_nat i) False,
                                wValue = BP us, wMeta = 1\<rparr>
                 | None \<Rightarrow> \<lparr>wSite = CountIndexWrite, wKey = CK attr (of_nat i) False,
                             wValue = None, wMeta = 0\<rparr>)
             ` {0..Max (dom counts)} \<and>
         (sorted order \<and> distinct order \<longrightarrow>
            flushCounts CK BP attr counts order =
              map (\<lambda>i. case counts i of
                      Some us \<Rightarrow> \<lparr>wSite = CountIndexWrite, wKey = CK attr (of_nat i) False,
                                   wValue = BP us, wMeta = 1\<rparr>
                    | None \<Rightarrow> \<lparr>wSite = CountIndexWrite, wKey = CK attr (of_nat i) False,
                                wValue = None, wMeta = 0\<rparr>)
                [0..<Suc (Max (dom counts))])"
proof -
  have e: "countIndexEntry CK BP attr counts =
     (\<lambda>i. case counts i of
             Some us \<Rightarrow> \<lparr>wSite = CountIndexWrite, wKey = CK attr (of_nat i) False,
                          wValue = BP us, wMeta = 1\<rparr>
           | None \<Rightarrow> \<lparr>wSite = CountIndexWrite, wKey = CK attr (of_nat i) False,
                       wValue = None, wMeta = 0\<rparr>)"
    using assms(3) by (auto simp: countIndexEntry_def ran_def fun_eq_iff split: option.splits)
  have f: "flushCounts CK BP attr counts order =
      map (countIndexEntry CK BP attr counts) (flushed (- 1) order)"
    by (simp add: flushCounts_def flushCounts_loop_flushed)
  have a: "set (flushed (- 1) order) = {0..Max (dom counts)}"
    using set_flushed_all[OF assms(2)] assms(1) by simp
  have b: "flushed (- 1) order = [0..<Suc (Max (dom counts))]"
    if "sorted order" "distinct order"
  proof -
    have "last order = Max (set order)"
      using that(1) assms(2) by (rule sorted_last_Max)
    then show ?thesis
      using flushed_sorted[OF that assms(2), of "- 1"] assms(1) by simp
  qed
  have "set (flushCounts CK BP attr counts order) =
      countIndexEntry CK BP attr counts ` {0..Max (dom counts)}"
    unfolding f using a by simp
  moreover have "flushCounts CK BP attr counts order =
      map (countIndexEntry CK BP attr counts) [0..<Suc (Max (dom counts))]"
    if "sorted order \<and> distinct order"
    unfolding f using b that by simp
  ultimately show ?thesis unfolding e by blast
qed

theorem flushCounts_dense_witness:
  "set (flushCounts (\<lambda>attr c r. [ucast c]) (\<lambda>us. Some (map ucast us)) ''friend''
          [0 \<mapsto> [10], 2 \<mapsto> [11], 5 \<mapsto> [12, 13]] [5, 0, 2]) =
     {\<lparr>wSite = CountIndexWrite, wKey = [0], wValue = Some [10], wMeta = 1\<rparr>,
      \<lparr>wSite = CountIndexWrite, wKey = [1], wValue = None, wMeta = 0\<rparr>,
      \<lparr>wSite = CountIndexWrite, wKey = [2], wValue = Some [11], wMeta = 1\<rparr>,
      \<lparr>wSite = CountIndexWrite, wKey = [3], wValue = None, wMeta = 0\<rparr>,
      \<lparr>wSite = CountIndexWrite, wKey = [4], wValue = None, wMeta = 0\<rparr>,
      \<lparr>wSite = CountIndexWrite, wKey = [5], wValue = Some [12, 13], wMeta = 1\<rparr>} \<and>
   flushCounts (\<lambda>attr c r. [ucast c]) (\<lambda>us. Some (map ucast us)) ''friend''
          [0 \<mapsto> [10], 2 \<mapsto> [11], 5 \<mapsto> [12, 13]] [0, 2, 5] =
     [\<lparr>wSite = CountIndexWrite, wKey = [0], wValue = Some [10], wMeta = 1\<rparr>,
      \<lparr>wSite = CountIndexWrite, wKey = [1], wValue = None, wMeta = 0\<rparr>,
      \<lparr>wSite = CountIndexWrite, wKey = [2], wValue = Some [11], wMeta = 1\<rparr>,
      \<lparr>wSite = CountIndexWrite, wKey = [3], wValue = None, wMeta = 0\<rparr>,
      \<lparr>wSite = CountIndexWrite, wKey = [4], wValue = None, wMeta = 0\<rparr>,
      \<lparr>wSite = CountIndexWrite, wKey = [5], wValue = Some [12, 13], wMeta = 1\<rparr>]"
proof -
  define counts :: "nat \<rightharpoonup> uint64 list" where "counts = [0 \<mapsto> [10], 2 \<mapsto> [11], 5 \<mapsto> [12, 13]]"
  have d: "dom counts = {0, 2, 5}" by (auto simp: counts_def)
  have r: "\<forall>us\<in>ran counts. us \<noteq> []" by (auto simp: counts_def ran_def)
  have m: "Max (dom counts) = 5" by (simp add: d)
  have i: "{0..5::nat} = {0, 1, 2, 3, 4, 5}" by auto
  have u: "[0..<6] = [0, 1, 2, 3, 4, 5::nat]" by (simp add: upt_rec)
  have 1: "set [5, 0, 2] = dom counts" "set [0, 2, 5] = dom counts" by (auto simp: d)
  show ?thesis
    using flushCounts_dense[of "[5, 0, 2]" counts "\<lambda>attr c r. [ucast c]" "\<lambda>us. Some (map ucast us)" "''friend''", OF 1(1) _ r]
      flushCounts_dense[of "[0, 2, 5]" counts "\<lambda>attr c r. [ucast c]" "\<lambda>us. Some (map ucast us)" "''friend''", OF 1(2) _ r]
    unfolding m
    by (simp add: i u) (simp add: counts_def)
qed



section \<open>The merge stage: the heap order\<close>

lemma parent_eq: "0 < (x::nat) \<Longrightarrow> ((x - 1) div 2 = i) = (x = 2 * i + 1 \<or> x = 2 * i + 2)"
  by arith

lemma parent_less: "0 < (x::nat) \<Longrightarrow> (x - 1) div 2 < x"
  by arith

lemma hp_down_done:
  assumes "hp_down k n i" "2 * i + 1 < n \<longrightarrow> k i \<le> k (2 * i + 1)"
    "2 * i + 2 < n \<longrightarrow> k i \<le> k (2 * i + 2)"
  shows "hp k n"
  unfolding hp_def
proof (intro allI impI)
  fix x assume x: "0 < x \<and> x < n"
  show "k ((x - 1) div 2) \<le> k x"
  proof (cases "(x - 1) div 2 = i")
    case True
    then have "x = 2 * i + 1 \<or> x = 2 * i + 2" using x parent_eq by blast
    then show ?thesis using assms(2,3) x True by auto
  next
    case False
    then show ?thesis using assms(1) x unfolding hp_down_def by blast
  qed
qed

lemma hp_down_swap:
  assumes d: "hp_down k n i" and j: "j < n" "j = 2 * i + 1 \<or> j = 2 * i + 2"
    and lt: "k j < k i"
    and m1: "2 * i + 1 < n \<longrightarrow> k j \<le> k (2 * i + 1)"
    and m2: "2 * i + 2 < n \<longrightarrow> k j \<le> k (2 * i + 2)"
  shows "hp_down (k(i := k j, j := k i)) n j"
  unfolding hp_down_def
proof (intro allI impI conjI)
  fix x assume x: "0 < x \<and> x < n" and pj: "(x - 1) div 2 \<noteq> j"
  let ?p = "(x - 1) div 2"
  have ij: "i \<noteq> j" "i < j" using j by auto
  show "(k(i := k j, j := k i)) ?p \<le> (k(i := k j, j := k i)) x"
  proof (cases "?p = i")
    case True
    then have c: "x = 2 * i + 1 \<or> x = 2 * i + 2" using x parent_eq by blast
    show ?thesis
    proof (cases "x = j")
      case True
      then show ?thesis using \<open>?p = i\<close> lt ij by simp
    next
      case False
      then have "x \<noteq> i" using c by auto
      moreover have "k j \<le> k x" using c m1 m2 x by auto
      ultimately show ?thesis using \<open>?p = i\<close> False ij by simp
    qed
  next
    case False
    have xj: "x \<noteq> j" using False j x parent_eq[of j i] by auto
    show ?thesis
    proof (cases "x = i")
      case True
      then have "0 < i" using x by simp
      moreover have "(j - 1) div 2 = i" using j by auto
      moreover have "0 < j" using j by auto
      ultimately have "k ((i - 1) div 2) \<le> k j"
        using d j(1) unfolding hp_down_def by blast
      then show ?thesis using True False pj ij by simp
    next
      case xi: False
      have "k ?p \<le> k x" using d x False unfolding hp_down_def by blast
      then show ?thesis using xi xj False pj by simp
    qed
  qed
next
  fix x assume x: "0 < x \<and> x < n" and pj: "(x - 1) div 2 = j \<and> 0 < j"
  have ij: "i \<noteq> j" "i < j" "(j - 1) div 2 = i" using j by auto
  have xj: "x \<noteq> j" "x \<noteq> i" using pj x ij parent_less[of x] by auto
  have "k j \<le> k x" using d x pj ij unfolding hp_down_def by metis
  then show "(k(i := k j, j := k i)) ((j - 1) div 2) \<le> (k(i := k j, j := k i)) x"
    using xj ij by simp
qed

lemma hp_up_done:
  assumes "hp_up k n j" "j = 0 \<or> k ((j - 1) div 2) \<le> k j"
  shows "hp k n"
  unfolding hp_def
proof (intro allI impI)
  fix x assume x: "0 < x \<and> x < n"
  show "k ((x - 1) div 2) \<le> k x"
    using assms x unfolding hp_up_def by (cases "x = j") auto
qed

lemma hp_up_swap:
  assumes u: "hp_up k n j" and j: "0 < j" "j < n"
    and lt: "k j < k ((j - 1) div 2)"
  shows "hp_up (k((j - 1) div 2 := k j, j := k ((j - 1) div 2))) n ((j - 1) div 2)"
  unfolding hp_up_def
proof (intro allI impI conjI)
  let ?p = "(j - 1) div 2"
  let ?k = "k(?p := k j, j := k ?p)"
  have pj: "?p < j" using j parent_less by blast
  fix x assume x: "0 < x \<and> x < n" and xp: "x \<noteq> ?p"
  let ?q = "(x - 1) div 2"
  show "?k ?q \<le> ?k x"
  proof (cases "x = j")
    case True
    then show ?thesis using lt pj by simp
  next
    case False
    have old: "k ?q \<le> k x" using u x False unfolding hp_up_def by blast
    show ?thesis
    proof (cases "?q = j")
      case True
      then have "k ?p \<le> k x" using u x j unfolding hp_up_def by blast
      then show ?thesis using True False xp pj by simp
    next
      case qj: False
      show ?thesis
      proof (cases "?q = ?p")
        case True
        then show ?thesis using old lt False xp pj by simp
      next
        case qp: False
        then show ?thesis using old False xp qj by simp
      qed
    qed
  qed
next
  let ?p = "(j - 1) div 2"
  let ?k = "k(?p := k j, j := k ?p)"
  have pj: "?p < j" using j parent_less by blast
  fix x assume x: "0 < x \<and> x < n" and xp: "(x - 1) div 2 = ?p \<and> 0 < ?p"
  have pp: "(?p - 1) div 2 < ?p" using xp parent_less by blast
  have gp: "k ((?p - 1) div 2) \<le> k ?p"
    using u xp pj j unfolding hp_up_def by (metis less_trans nat_neq_iff)
  have xnp: "x \<noteq> ?p" using xp x parent_less[of x] by auto
  show "?k ((?p - 1) div 2) \<le> ?k x"
  proof (cases "x = j")
    case True
    then show ?thesis using gp pp pj by simp
  next
    case False
    then have "k ?p \<le> k x" using u x xp unfolding hp_up_def by metis
    then show ?thesis using gp pp pj False xnp by simp
  qed
qed

lemma hp_root_min: "hp k n \<Longrightarrow> x < n \<Longrightarrow> k 0 \<le> k x"
proof (induction x rule: less_induct)
  case (less x)
  show ?case
  proof (cases "x = 0")
    case True
    then show ?thesis by simp
  next
    case False
    then have "(x - 1) div 2 < x" by arith
    then have "k 0 \<le> k ((x - 1) div 2)" using less by simp
    moreover have "k ((x - 1) div 2) \<le> k x" using less.prems False unfolding hp_def by simp
    ultimately show ?thesis by simp
  qed
qed

lemma Compare_lex:
  "Compare xs ys = (if xs < ys then - 1 else if ys < xs then 1 else 0)"
  by (induction xs ys rule: Compare.induct) auto

lemma Less_live:
  "mapEntry (h ! i) \<noteq> None \<Longrightarrow> mapEntry (h ! j) \<noteq> None \<Longrightarrow>
   Less h i j = Inr (nkey (h ! i) < nkey (h ! j))"
  by (auto simp: Less_def nkey_def bytes_Compare_def Compare_lex)

lemma keys_Swap:
  "i < length h \<Longrightarrow> j < length h \<Longrightarrow>
   keys_of (Swap h i j) = (keys_of h)(i := keys_of h j, j := keys_of h i)"
  by (auto simp: keys_of_def Swap_nth fun_eq_iff)

lemma live_Swap:
  "live h n \<Longrightarrow> i < n \<Longrightarrow> j < n \<Longrightarrow> n \<le> length h \<Longrightarrow> live (Swap h i j) n"
  by (auto simp: live_def Swap_nth)

lemma down_correct:
  "hp_down (keys_of h) n i \<Longrightarrow> n \<le> length h \<Longrightarrow> live h n \<Longrightarrow>
   \<exists>h' i'. heap_down_loop h i n = Inr (h', i') \<and> hp (keys_of h') n \<and> mset h' = mset h \<and>
     drop n h' = drop n h \<and> live h' n \<and> length h' = length h"
proof (induction h i n rule: heap_down_loop.induct)
  case (1 h i n)
  let ?j1 = "2 * i + 1"
  let ?k = "keys_of h"
  show ?case
  proof (cases "n \<le> ?j1")
    case True
    have "hp ?k n" using hp_down_done[OF "1.prems"(1)] True by simp
    then show ?thesis using True "1.prems" by (simp add: heap_down_loop.simps[of h i n])
  next
    case False
    then have i: "i < n" "?j1 < n" by auto
    define right where "right = (?j1 + 1 < n \<and> ?k (?j1 + 1) < ?k ?j1)"
    define j where "j = (if right then ?j1 + 1 else ?j1)"
    have jn: "j < n" "j = 2 * i + 1 \<or> j = 2 * i + 2"
      using i by (auto simp: j_def right_def)
    have L1: "(if ?j1 + 1 < n then Less h (?j1 + 1) ?j1 else Inr False) = Inr right"
      using "1.prems"(3) i by (auto simp: right_def live_def Less_live keys_of_def)
    have L2: "Less h j i = Inr (?k j < ?k i)"
      using "1.prems"(3) i jn by (auto simp: live_def Less_live keys_of_def)
    have m1: "?k j \<le> ?k (2 * i + 1)" using i by (auto simp: j_def right_def)
    have m2: "2 * i + 2 < n \<longrightarrow> ?k j \<le> ?k (2 * i + 2)" by (auto simp: j_def right_def)
    have eq: "heap_down_loop h i n =
        (if \<not> ?k j < ?k i then Inr (h, i) else heap_down_loop (Swap h i j) j n)"
      apply (subst heap_down_loop.simps)
      apply (simp only: Let_def False if_False L1 sum.case j_def[symmetric] L2)
      done
    show ?thesis
    proof (cases "?k j < ?k i")
      case lt: False
      have a1: "2 * i + 1 < n \<longrightarrow> ?k i \<le> ?k (2 * i + 1)" using lt m1 by auto
      have a2: "2 * i + 2 < n \<longrightarrow> ?k i \<le> ?k (2 * i + 2)" using lt m2 by auto
      have "hp ?k n" by (rule hp_down_done[OF "1.prems"(1) a1 a2])
      then show ?thesis
        using "1.prems" lt by (simp add: eq)
    next
      case lt: True
      have len: "i < length h" "j < length h" using i jn "1.prems"(2) by auto
      have d': "hp_down (keys_of (Swap h i j)) n j"
        unfolding keys_Swap[OF len]
        using hp_down_swap[OF "1.prems"(1) jn lt] m1 m2 by blast
      have "\<exists>h' i'. heap_down_loop (Swap h i j) j n = Inr (h', i') \<and> hp (keys_of h') n \<and>
          mset h' = mset (Swap h i j) \<and> drop n h' = drop n (Swap h i j) \<and> live h' n \<and>
          length h' = length (Swap h i j)"
      proof (rule "1.IH"[of ?j1 right j "?k j < ?k i"])
        show "?j1 = 2 * i + 1" by simp
        show "\<not> n \<le> ?j1" by (rule False)
        show "(if ?j1 + 1 < n then Less h (?j1 + 1) ?j1 else Inr False) = Inr right" by (rule L1)
        show "j = (if right then ?j1 + 1 else ?j1)" by (simp add: j_def)
        show "Less h j i = Inr (?k j < ?k i)" by (rule L2)
        show "\<not> \<not> ?k j < ?k i" using lt by simp
        show "hp_down (keys_of (Swap h i j)) n j" by (rule d')
        show "n \<le> length (Swap h i j)" using "1.prems"(2) by simp
        show "live (Swap h i j) n" using live_Swap[OF "1.prems"(3) i(1) jn(1) "1.prems"(2)] .
      qed
      then obtain h' i' where r: "heap_down_loop (Swap h i j) j n = Inr (h', i')"
        "hp (keys_of h') n" "mset h' = mset (Swap h i j)" "drop n h' = drop n (Swap h i j)"
        "live h' n" "length h' = length (Swap h i j)" by blast
      have "heap_down_loop h i n = Inr (h', i')"
        using lt r(1) by (simp add: eq)
      then show ?thesis
        using r mset_Swap[OF len] drop_Swap[OF i(1) jn(1)] by simp
    qed
  qed
qed

lemma up_correct:
  "hp_up (keys_of h) n j \<Longrightarrow> n \<le> length h \<Longrightarrow> live h n \<Longrightarrow> j < n \<Longrightarrow>
   \<exists>h'. heap_up h j = Inr h' \<and> hp (keys_of h') n \<and> mset h' = mset h \<and>
     drop n h' = drop n h \<and> live h' n \<and> length h' = length h"
proof (induction h j rule: heap_up.induct)
  case (1 h j)
  let ?p = "(j - 1) div 2"
  let ?k = "keys_of h"
  show ?case
  proof (cases "?p = j")
    case True
    then have j0: "j = 0" by arith
    then have "hp ?k n" using hp_up_done[OF "1.prems"(1)] by simp
    then show ?thesis using j0 "1.prems" by (simp add: heap_up.simps[of h 0])
  next
    case False
    then have j0: "0 < j" by arith
    then have pj: "?p < j" by arith
    have L: "Less h j ?p = Inr (?k j < ?k ?p)"
      using "1.prems"(3,4) pj by (auto simp: live_def Less_live keys_of_def)
    have eq: "heap_up h j = (if \<not> ?k j < ?k ?p then Inr h else heap_up (Swap h ?p j) ?p)"
      apply (subst heap_up.simps)
      apply (simp only: Let_def False if_False L sum.case)
      done
    show ?thesis
    proof (cases "?k j < ?k ?p")
      case lt: False
      then have "j = 0 \<or> ?k ?p \<le> ?k j" by auto
      then have "hp ?k n" by (rule hp_up_done[OF "1.prems"(1)])
      then show ?thesis using lt "1.prems" by (simp add: eq)
    next
      case lt: True
      have len: "?p < length h" "j < length h" using pj "1.prems"(2,4) by auto
      have pn: "?p < n" using pj "1.prems"(4) by simp
      have u': "hp_up (keys_of (Swap h ?p j)) n ?p"
        unfolding keys_Swap[OF len]
        using hp_up_swap[OF "1.prems"(1) j0 "1.prems"(4) lt] .
      have "\<exists>h'. heap_up (Swap h ?p j) ?p = Inr h' \<and> hp (keys_of h') n \<and>
          mset h' = mset (Swap h ?p j) \<and> drop n h' = drop n (Swap h ?p j) \<and> live h' n \<and>
          length h' = length (Swap h ?p j)"
      proof (rule "1.IH"[of ?p "?k j < ?k ?p"])
        show "?p = (j - 1) div 2" by simp
        show "?p \<noteq> j" by (rule False)
        show "Less h j ?p = Inr (?k j < ?k ?p)" by (rule L)
        show "\<not> \<not> ?k j < ?k ?p" using lt by simp
        show "hp_up (keys_of (Swap h ?p j)) n ?p" by (rule u')
        show "n \<le> length (Swap h ?p j)" using "1.prems"(2) by simp
        show "live (Swap h ?p j) n" using live_Swap[OF "1.prems"(3) pn "1.prems"(4) "1.prems"(2)] .
        show "?p < n" by (rule pn)
      qed
      then obtain h' where r: "heap_up (Swap h ?p j) ?p = Inr h'"
        "hp (keys_of h') n" "mset h' = mset (Swap h ?p j)" "drop n h' = drop n (Swap h ?p j)"
        "live h' n" "length h' = length (Swap h ?p j)" by blast
      have "heap_up h j = Inr h'"
        using lt r(1) by (simp add: eq)
      then show ?thesis
        using r mset_Swap[OF len] drop_Swap[OF pn "1.prems"(4)] by simp
    qed
  qed
qed

lemma hp_cong: "(\<forall>x<n. k x = k' x) \<Longrightarrow> hp k n \<Longrightarrow> hp k' n"
  unfolding hp_def
proof (intro allI impI)
  fix x assume a: "\<forall>x<n. k x = k' x" "\<forall>x. 0 < x \<and> x < n \<longrightarrow> k ((x - 1) div 2) \<le> k x"
    and x: "0 < x \<and> x < n"
  have "(x - 1) div 2 < n" using x by arith
  then show "k' ((x - 1) div 2) \<le> k' x" using a x by metis
qed

lemma heap_Push_correct:
  assumes "heap_inv h" "mapEntry x \<noteq> None"
  shows "\<exists>h'. heap_Push h x = Inr h' \<and> heap_inv h' \<and> mset h' = add_mset x (mset h)"
proof -
  let ?g = "h @ [x]"
  let ?n = "length h"
  have hpk: "hp (keys_of h) ?n" and lv: "live h ?n" using assms(1) by (auto simp: heap_inv_def)
  have u: "hp_up (keys_of ?g) (Suc ?n) ?n"
    unfolding hp_up_def
  proof (intro allI impI conjI)
    fix y assume y: "0 < y \<and> y < Suc ?n" and ne: "y \<noteq> ?n"
    then have yn: "y < ?n" by simp
    then have pn: "(y - 1) div 2 < ?n" by arith
    have "keys_of h ((y - 1) div 2) \<le> keys_of h y" using hpk y yn unfolding hp_def by simp
    then show "keys_of ?g ((y - 1) div 2) \<le> keys_of ?g y"
      using yn pn by (simp add: keys_of_def nth_append)
  next
    fix y assume y: "0 < y \<and> y < Suc ?n" and p: "(y - 1) div 2 = ?n \<and> 0 < ?n"
    then have False by arith
    then show "keys_of ?g ((?n - 1) div 2) \<le> keys_of ?g y" ..
  qed
  have l: "live ?g (Suc ?n)"
    using lv assms(2) by (auto simp: live_def nth_append less_Suc_eq)
  obtain h' where r: "heap_up ?g ?n = Inr h'" "hp (keys_of h') (Suc ?n)" "mset h' = mset ?g"
      "live h' (Suc ?n)" "length h' = length ?g"
    using up_correct[OF u _ l, of] by auto
  show ?thesis
    using r by (auto simp: heap_Push_def Push_def heap_inv_def)
qed

lemma heap_Fix_root:
  assumes "heap_inv h" "h \<noteq> []" "mapEntry x \<noteq> None"
  shows "\<exists>h'. heap_Fix (h[0 := x]) 0 = Inr h' \<and> heap_inv h' \<and> mset h' = mset (h[0 := x])"
proof -
  let ?g = "h[0 := x]"
  let ?n = "length h"
  have hpk: "hp (keys_of h) ?n" and lv: "live h ?n" using assms(1) by (auto simp: heap_inv_def)
  have d: "hp_down (keys_of ?g) ?n 0"
    unfolding hp_down_def
  proof (intro allI impI conjI)
    fix y assume y: "0 < y \<and> y < ?n" and p: "(y - 1) div 2 \<noteq> 0"
    have "keys_of h ((y - 1) div 2) \<le> keys_of h y" using hpk y unfolding hp_def by simp
    then show "keys_of ?g ((y - 1) div 2) \<le> keys_of ?g y"
      using y p by (simp add: keys_of_def)
  next
    fix y :: nat assume "(y - 1) div 2 = 0 \<and> (0::nat) < 0"
    then show "keys_of ?g ((0 - 1) div 2) \<le> keys_of ?g y" by simp
  qed
  have pos: "0 < length h" using assms(2) by simp
  have l: "live ?g ?n"
    using lv assms(3) pos by (auto simp: live_def nth_list_update)
  obtain h1 i1 where r: "heap_down_loop ?g 0 ?n = Inr (h1, i1)" "hp (keys_of h1) ?n"
      "mset h1 = mset ?g" "live h1 ?n" "length h1 = length ?g"
    using down_correct[OF d _ l] by auto
  have "heap_Fix ?g 0 = Inr h1"
    using r(1) by (simp add: heap_Fix_def heap_down_def heap_up_0)
  then show ?thesis using r by (auto simp: heap_inv_def)
qed

lemma heap_Pop_root:
  assumes "heap_inv h" "h \<noteq> []"
  shows "\<exists>h'. heap_Pop (h[0 := y]) = Inr (y, h') \<and> heap_inv h' \<and>
           add_mset (h ! 0) (mset h') = mset h"
proof -
  let ?g = "h[0 := y]"
  let ?n = "length h - 1"
  let ?s = "Swap ?g 0 ?n"
  have hpk: "hp (keys_of h) (length h)" and lv: "live h (length h)"
    using assms(1) by (auto simp: heap_inv_def)
  have n: "?n < length h" using assms(2) by (cases h) auto
  have pos: "0 < length h" using assms(2) by simp
  have s_nth: "?s ! x = (if x = ?n then y else if x = 0 then h ! ?n else h ! x)"
    if "x < length h" for x
    using that n pos by (cases "?n = 0") (auto simp: Swap_def nth_list_update)
  have d: "hp_down (keys_of ?s) ?n 0"
    unfolding hp_down_def
  proof (intro allI impI conjI)
    fix x assume x: "0 < x \<and> x < ?n" and p: "(x - 1) div 2 \<noteq> 0"
    have pn: "(x - 1) div 2 < ?n" using x by arith
    have "0 < x \<and> x < length h" using x by arith
    then have "keys_of h ((x - 1) div 2) \<le> keys_of h x" using hpk unfolding hp_def by blast
    moreover have "?s ! x = h ! x" using s_nth[of x] x by auto
    moreover have "?s ! ((x - 1) div 2) = h ! ((x - 1) div 2)"
      using s_nth[of "(x - 1) div 2"] pn p by auto
    ultimately show "keys_of ?s ((x - 1) div 2) \<le> keys_of ?s x"
      by (simp add: keys_of_def)
  next
    fix x :: nat assume "(x - 1) div 2 = 0 \<and> (0::nat) < 0"
    then show "keys_of ?s ((0 - 1) div 2) \<le> keys_of ?s x" by simp
  qed
  have l: "live ?s ?n"
    unfolding live_def
  proof (intro allI impI)
    fix i assume i: "i < ?n"
    then have "?s ! i = (if i = 0 then h ! ?n else h ! i)" using s_nth[of i] by auto
    then show "mapEntry (?s ! i) \<noteq> None" using lv i n by (auto simp: live_def)
  qed
  obtain h1 i1 where r: "heap_down_loop ?s 0 ?n = Inr (h1, i1)" "hp (keys_of h1) ?n"
      "mset h1 = mset ?s" "drop ?n h1 = drop ?n ?s" "live h1 ?n" "length h1 = length ?s"
    using down_correct[OF d _ l] by auto
  have len1: "length h1 = Suc ?n" using r(6) n by simp
  have "drop ?n ?s = [y]"
    using n s_nth[of ?n] Cons_nth_drop_Suc[of ?n ?s] by simp
  then have dl: "drop ?n h1 = [y]" using r(4) by simp
  have h1: "h1 = take ?n h1 @ [y]" using dl append_take_drop_id[of ?n h1] by simp
  then have last: "last h1 = y" "butlast h1 = take ?n h1"
    by (metis last_snoc, metis butlast_snoc)
  have pop: "heap_Pop ?g = Inr (y, take ?n h1)"
    using r(1) last by (simp add: heap_Pop_def heap_down_def Let_def Pop_def)
  have inv: "heap_inv (take ?n h1)"
    unfolding heap_inv_def
  proof
    have "\<forall>x<?n. keys_of h1 x = keys_of (take ?n h1) x" by (simp add: keys_of_def)
    then show "hp (keys_of (take ?n h1)) (length (take ?n h1))"
      using hp_cong[OF _ r(2)] len1 by simp
    show "live (take ?n h1) (length (take ?n h1))"
      using r(5) len1 by (simp add: live_def)
  qed
  have "mset h1 = add_mset y (mset (take ?n h1))" by (subst h1) simp
  moreover have "mset ?s = mset ?g" using mset_Swap[of 0 ?g ?n] n assms(2) by simp
  moreover have "mset ?g = add_mset y (mset h - {#h ! 0#})"
    using pos by (simp add: mset_update)
  ultimately have "mset (take ?n h1) = mset h - {#h ! 0#}" using r(3) by simp
  moreover have "h ! 0 \<in># mset h" using pos by (simp add: nth_mem)
  ultimately have "add_mset (h ! 0) (mset (take ?n h1)) = mset h" by simp
  then show ?thesis using pop inv by blast
qed

section \<open>The merge stage: the merged sequence\<close>

lemma shuffle_is_partition_of_merge:
  "merge_loop ph = Inr ms \<Longrightarrow>
   shufflePostings_loop B ph batch prevKey = Inr (partition_batches B ms batch prevKey)"
proof (induction ph arbitrary: ms batch prevKey rule: merge_loop.induct)
  case (1 ph)
  show ?case
  proof (cases "length ph > 0")
    case False
    then have "ph = []" by simp
    then show ?thesis using "1.prems"
      by (simp add: merge_loop.simps[of "[]"] shufflePostings_loop.simps[of B "[]"])
  next
    case True
    from "1.prems" True obtain m ph' ms' where
      n: "next_entry ph = Inr (Some m, ph')" and r: "merge_loop ph' = Inr ms'" and ms: "ms = m # ms'"
      by (subst (asm) merge_loop.simps) (auto split: sum.splits option.splits)
    have IH: "shufflePostings_loop B ph' b pk = Inr (partition_batches B ms' b pk)" for b pk
      using "1.IH"[OF True n refl refl r] by simp
    show ?thesis
      using True n ms IH by (simp add: shufflePostings_loop.simps[of B ph])
  qed
qed

lemma nkey_Some: "mapEntry x = Some m \<Longrightarrow> nkey x = ekey m"
  by (simp add: nkey_def ekey_def)

lemma elems_member:
  "y \<in># elems ph \<Longrightarrow> \<exists>x\<in>set ph. y \<in># node_elems x"
  by (induction ph) (auto simp: elems_def)

lemma node_lower_bound:
  "node_sorted x \<Longrightarrow> y \<in># node_elems x \<Longrightarrow> nkey x \<le> ekey y"
  by (auto simp: node_sorted_def node_elems_def nkey_def ekey_def split: option.splits)

lemma root_lower_bound:
  assumes "heap_inv ph" "\<forall>x\<in>set ph. node_sorted x" "y \<in># elems ph"
  shows "nkey (ph ! 0) \<le> ekey y"
proof -
  obtain x where x: "x \<in> set ph" "y \<in># node_elems x" using elems_member[OF assms(3)] by blast
  then obtain i where i: "i < length ph" "x = ph ! i" by (auto simp: in_set_conv_nth)
  have "keys_of ph 0 \<le> keys_of ph i"
    using hp_root_min[of "keys_of ph" "length ph" i] assms(1) i by (simp add: heap_inv_def)
  moreover have "nkey x \<le> ekey y" using node_lower_bound x assms(2) by blast
  ultimately show ?thesis using i by (simp add: keys_of_def)
qed

lemma set_mset_eq: "mset xs = mset ys \<Longrightarrow> set xs = set ys"
  by (rule mset_eq_setD)

lemma next_entry_correct:
  assumes inv: "heap_inv ph" and ne: "ph \<noteq> []"
  shows "\<exists>m ph'. next_entry ph = Inr (Some m, ph') \<and> heap_inv ph' \<and>
           elems ph = add_mset m (elems ph') \<and>
           ((\<forall>x\<in>set ph. node_sorted x) \<longrightarrow>
              (\<forall>x\<in>set ph'. node_sorted x) \<and> (\<forall>y\<in>#elems ph'. ekey m \<le> ekey y))"
proof -
  have pos: "0 < length ph" using ne by simp
  then obtain m where m: "mapEntry (ph ! 0) = Some m"
    using inv by (auto simp: heap_inv_def live_def)
  have root: "ph ! 0 \<in> set ph" using pos by simp
  have km: "nkey (ph ! 0) = ekey m" using m by (rule nkey_Some)
  show ?thesis
  proof (cases "ch (ph ! 0)")
    case Nil
    let ?y = "(ph ! 0)\<lparr>mapEntry := None\<rparr>"
    obtain ph' where p: "heap_Pop (ph[0 := ?y]) = Inr (?y, ph')" "heap_inv ph'"
      "add_mset (ph ! 0) (mset ph') = mset ph"
      using heap_Pop_root[OF inv ne, of ?y] by blast
    have n: "next_entry ph = Inr (Some m, ph')"
      using Nil p(1) m by (simp add: next_entry_def)
    have "elems ph = node_elems (ph ! 0) + elems ph'"
      unfolding elems_def p(3)[symmetric] by simp
    then have e: "elems ph = add_mset m (elems ph')"
      using m Nil by (simp add: node_elems_def)
    have "set_mset (mset ph) = insert (ph ! 0) (set_mset (mset ph'))"
      unfolding p(3)[symmetric] by simp
    then have sub: "set ph' \<subseteq> set ph" by auto
    have "(\<forall>x\<in>set ph'. node_sorted x) \<and> (\<forall>y\<in>#elems ph'. ekey m \<le> ekey y)"
      if s: "\<forall>x\<in>set ph. node_sorted x"
    proof
      show "\<forall>x\<in>set ph'. node_sorted x" using s sub by blast
      show "\<forall>y\<in>#elems ph'. ekey m \<le> ekey y"
        using root_lower_bound[OF inv s] e km by auto
    qed
    then show ?thesis using n p(2) e by blast
  next
    case (Cons x rest)
    let ?y = "\<lparr>mapEntry = Some x, ch = rest\<rparr>"
    obtain ph' where p: "heap_Fix (ph[0 := ?y]) 0 = Inr ph'" "heap_inv ph'"
      "mset ph' = mset (ph[0 := ?y])"
      using heap_Fix_root[OF inv ne, of ?y] by auto
    have n: "next_entry ph = Inr (Some m, ph')"
      using Cons p(1) m by (simp add: next_entry_def)
    have u: "mset (ph[0 := ?y]) = add_mset ?y (mset ph - {#ph ! 0#})"
      using pos by (simp add: mset_update)
    define R where "R = mset ph - {#ph ! 0#}"
    have mp: "mset ph = add_mset (ph ! 0) R" using root by (simp add: R_def)
    have "elems ph = node_elems (ph ! 0) + sum_mset (image_mset node_elems R)"
      unfolding elems_def mp by simp
    moreover have "elems ph' = node_elems ?y + sum_mset (image_mset node_elems R)"
      unfolding elems_def p(3) u R_def by simp
    moreover have "node_elems (ph ! 0) = add_mset m (node_elems ?y)"
      using m Cons by (simp add: node_elems_def)
    ultimately have e: "elems ph = add_mset m (elems ph')" by simp
    have sub: "set ph' \<subseteq> insert ?y (set ph)"
    proof -
      have "set ph' = set (ph[0 := ?y])" using p(3) by (rule mset_eq_setD)
      then show ?thesis using set_update_subset_insert by fast
    qed
    have "(\<forall>x\<in>set ph'. node_sorted x) \<and> (\<forall>y\<in>#elems ph'. ekey m \<le> ekey y)"
      if s: "\<forall>x\<in>set ph. node_sorted x"
    proof
      have "node_sorted (ph ! 0)" using s root by blast
      then have "node_sorted ?y" using m Cons by (simp add: node_sorted_def)
      then show "\<forall>x\<in>set ph'. node_sorted x" using s sub by auto
      show "\<forall>y\<in>#elems ph'. ekey m \<le> ekey y"
        using root_lower_bound[OF inv s] e km by auto
    qed
    then show ?thesis using n p(2) e by blast
  qed
qed

lemma merge_correct:
  "heap_inv ph \<Longrightarrow>
   \<exists>ms. merge_loop ph = Inr ms \<and> mset ms = elems ph \<and>
     ((\<forall>x\<in>set ph. node_sorted x) \<longrightarrow> sorted (map ekey ms))"
proof (induction ph rule: merge_loop.induct)
  case (1 ph)
  show ?case
  proof (cases "ph = []")
    case True
    then show ?thesis by (simp add: merge_loop.simps[of "[]"] elems_def)
  next
    case False
    obtain m ph' where n: "next_entry ph = Inr (Some m, ph')" "heap_inv ph'"
      "elems ph = add_mset m (elems ph')"
      "(\<forall>x\<in>set ph. node_sorted x) \<longrightarrow>
         (\<forall>x\<in>set ph'. node_sorted x) \<and> (\<forall>y\<in>#elems ph'. ekey m \<le> ekey y)"
      using next_entry_correct[OF "1.prems" False] by blast
    have pos: "0 < length ph" using False by simp
    obtain ms where r: "merge_loop ph' = Inr ms" "mset ms = elems ph'"
      "(\<forall>x\<in>set ph'. node_sorted x) \<longrightarrow> sorted (map ekey ms)"
      using "1.IH"[OF pos n(1) refl refl n(2)] by blast
    have "merge_loop ph = Inr (m # ms)"
      using pos n(1) r(1) by (simp add: merge_loop.simps[of ph])
    moreover have "mset (m # ms) = elems ph" using r(2) n(3) by simp
    moreover have "sorted (map ekey (m # ms))" if s: "\<forall>x\<in>set ph. node_sorted x"
    proof -
      have "set ms = set_mset (elems ph')" using arg_cong[OF r(2), of set_mset] by simp
      then have "\<forall>y\<in>set ms. ekey m \<le> ekey y"
        using n(4) s by simp
      then show ?thesis using n(4) s r(3) by simp
    qed
    ultimately show ?thesis by blast
  qed
qed

lemma seed_correct:
  "heap_inv ph \<Longrightarrow> \<forall>c\<in>set chs. c \<noteq> [] \<Longrightarrow>
   \<exists>ph'. seed_loop ph chs = Inr ph' \<and> heap_inv ph' \<and>
     elems ph' = elems ph + sum_list (map mset chs) \<and>
     ((\<forall>x\<in>set ph. node_sorted x) \<and> (\<forall>c\<in>set chs. sorted (map ekey c)) \<longrightarrow>
        (\<forall>x\<in>set ph'. node_sorted x))"
proof (induction chs arbitrary: ph)
  case Nil
  then show ?case by simp
next
  case (Cons c chs)
  then obtain x rest where c: "c = x # rest" by (cases c) auto
  let ?y = "\<lparr>mapEntry = Some x, ch = rest\<rparr>"
  have "mapEntry ?y \<noteq> None" by simp
  from heap_Push_correct[OF Cons.prems(1) this]
  obtain ph1 where p: "heap_Push ph ?y = Inr ph1" "heap_inv ph1" "mset ph1 = add_mset ?y (mset ph)"
    by blast
  have ne: "\<forall>c\<in>set chs. c \<noteq> []" using Cons.prems(2) by simp
  from Cons.IH[OF p(2) ne]
  obtain ph' where r: "seed_loop ph1 chs = Inr ph'" "heap_inv ph'"
    "elems ph' = elems ph1 + sum_list (map mset chs)"
    "(\<forall>x\<in>set ph1. node_sorted x) \<and> (\<forall>c\<in>set chs. sorted (map ekey c)) \<longrightarrow>
        (\<forall>x\<in>set ph'. node_sorted x)"
    by blast
  have 1: "seed_loop ph (c # chs) = Inr ph'" using p(1) r(1) c by simp
  have e1: "elems ph1 = elems ph + mset c"
    unfolding elems_def p(3) using c by (simp add: node_elems_def)
  have 2: "elems ph' = elems ph + sum_list (map mset (c # chs))"
    unfolding r(3) e1 by (simp add: ac_simps)
  have 3: "\<forall>x\<in>set ph'. node_sorted x"
    if a: "(\<forall>x\<in>set ph. node_sorted x) \<and> (\<forall>c\<in>set (c # chs). sorted (map ekey c))"
  proof -
    have "set ph1 = insert ?y (set ph)"
      using arg_cong[OF p(3), of set_mset] by simp
    moreover have "node_sorted ?y" using a c by (simp add: node_sorted_def)
    ultimately have "\<forall>x\<in>set ph1. node_sorted x" using a by simp
    then show ?thesis using r(4) a by simp
  qed
  show ?case using 1 r(2) 2 3 by blast
qed

lemma heap_inv_Nil: "heap_inv []"
  by (simp add: heap_inv_def hp_def live_def)

lemma elems_Nil: "elems [] = {#}"
  by (simp add: elems_def)

lemma merge_of_sources:
  assumes "\<forall>c\<in>set chs. c \<noteq> []"
  shows "\<exists>ph ms. seed_loop [] chs = Inr ph \<and> merge_loop ph = Inr ms \<and>
           mset ms = sum_list (map mset chs) \<and>
           ((\<forall>c\<in>set chs. sorted (map ekey c)) \<longrightarrow> sorted (map ekey ms))"
proof -
  from seed_correct[OF heap_inv_Nil assms]
  obtain ph where s: "seed_loop [] chs = Inr ph" "heap_inv ph"
    "elems ph = elems [] + sum_list (map mset chs)"
    "(\<forall>x\<in>set []. node_sorted x) \<and> (\<forall>c\<in>set chs. sorted (map ekey c)) \<longrightarrow>
        (\<forall>x\<in>set ph. node_sorted x)"
    by blast
  from merge_correct[OF s(2)]
  obtain ms where m: "merge_loop ph = Inr ms" "mset ms = elems ph"
    "(\<forall>x\<in>set ph. node_sorted x) \<longrightarrow> sorted (map ekey ms)"
    by blast
  have 1: "mset ms = sum_list (map mset chs)" using m(2) s(3) by (simp add: elems_Nil)
  have 2: "sorted (map ekey ms)" if "\<forall>c\<in>set chs. sorted (map ekey c)"
    using that s(4) m(3) by simp
  show ?thesis using s(1) m(1) 1 2 by blast
qed

lemma Compare_eq_0: "Compare xs ys = 0 \<longleftrightarrow> xs = ys"
  by (auto simp: Compare_lex)

lemma bytes_Compare_ekey:
  "bytes_Compare (Key a) (Key b) = (if ekey a < ekey b then - 1 else if ekey b < ekey a then 1 else 0)"
  by (simp add: bytes_Compare_def ekey_def Compare_lex)

lemma sorted_wrt_Compare:
  "sorted_wrt (\<lambda>a b. bytes_Compare (Key a) (Key b) \<le> 0) xs = sorted (map ekey xs)"
proof -
  have "(\<lambda>a b. bytes_Compare (Key a) (Key b) \<le> 0) = (\<lambda>a b. ekey a \<le> ekey b)"
    by (auto simp: bytes_Compare_ekey fun_eq_iff)
  then show ?thesis by (simp add: sorted_map)
qed

section \<open>The batch partitioner\<close>

lemma concat_partition: "concat (partition_batches B ms batch pk) = batch @ ms"
  by (induction ms arbitrary: batch pk) auto

lemma partition_sizes:
  "\<forall>b\<in>set (butlast (partition_batches B ms batch pk)). B \<le> length b"
  by (induction ms arbitrary: batch pk) auto

lemma partition_nonempty:
  "0 < B \<Longrightarrow> [] \<notin> set (partition_batches B ms batch pk)"
  by (induction ms arbitrary: batch pk) auto

lemma partition_hd:
  "batch \<noteq> [] \<Longrightarrow>
   partition_batches B ms batch pk \<noteq> [] \<and> hd (hd (partition_batches B ms batch pk)) = hd batch"
  by (induction ms arbitrary: batch pk) auto

lemma partition_boundaries:
  "0 < B \<Longrightarrow> (batch \<noteq> [] \<longrightarrow> bytesOf pk = ekey (last batch)) \<Longrightarrow>
   successively (\<lambda>b1 b2. ekey (last b1) \<noteq> ekey (hd b2)) (partition_batches B ms batch pk)"
proof (induction ms arbitrary: batch pk)
  case Nil
  then show ?case by simp
next
  case (Cons m ms)
  show ?case
  proof (cases "length batch \<ge> B \<and> bytes_Compare pk (Key m) \<noteq> 0")
    case True
    then have ne: "batch \<noteq> []" using Cons.prems(1) by auto
    have k: "ekey (last batch) \<noteq> ekey m"
      using True ne Cons.prems(2) by (auto simp: bytes_Compare_def ekey_def Compare_eq_0)
    let ?r = "partition_batches B ms [m] (Key m)"
    have r: "?r \<noteq> []" "hd (hd ?r) = m" using partition_hd[of "[m]" B ms "Key m"] by auto
    have s: "successively (\<lambda>b1 b2. ekey (last b1) \<noteq> ekey (hd b2)) ?r"
      by (rule Cons.IH) (use Cons.prems in \<open>auto simp: ekey_def\<close>)
    show ?thesis using True r s k by (cases ?r) auto
  next
    case False
    have "successively (\<lambda>b1 b2. ekey (last b1) \<noteq> ekey (hd b2))
        (partition_batches B ms (batch @ [m]) (Key m))"
      by (rule Cons.IH) (use Cons.prems in \<open>auto simp: ekey_def\<close>)
    then show ?thesis using False by auto
  qed
qed

lemma partition_ordered:
  "sorted (map ekey (batch @ ms)) \<Longrightarrow> (batch \<noteq> [] \<longrightarrow> bytesOf pk = ekey (last batch)) \<Longrightarrow>
   sorted_wrt (\<lambda>b1 b2. \<forall>x\<in>set b1. \<forall>y\<in>set b2. ekey x < ekey y)
     (partition_batches B ms batch pk)"
proof (induction ms arbitrary: batch pk)
  case Nil
  then show ?case by simp
next
  case (Cons m ms)
  show ?case
  proof (cases "length batch \<ge> B \<and> bytes_Compare pk (Key m) \<noteq> 0")
    case True
    let ?r = "partition_batches B ms [m] (Key m)"
    have s: "sorted_wrt (\<lambda>b1 b2. \<forall>x\<in>set b1. \<forall>y\<in>set b2. ekey x < ekey y) ?r"
      by (rule Cons.IH) (use Cons.prems in \<open>auto simp: ekey_def sorted_append\<close>)
    have c: "concat ?r = m # ms" by (simp add: concat_partition)
    have "\<forall>x\<in>set batch. \<forall>b\<in>set ?r. \<forall>y\<in>set b. ekey x < ekey y"
    proof (intro ballI)
      fix x b y assume x: "x \<in> set batch" and b: "b \<in> set ?r" and y: "y \<in> set b"
      then have ne: "batch \<noteq> []" by auto
      have "y \<in> set (concat ?r)" using b y by auto
      then have ym: "y \<in> set (m # ms)" using c by simp
      have 1: "ekey x \<le> ekey (last batch)"
      proof (cases "x = last batch")
        case True then show ?thesis by simp
      next
        case False
        then have "x \<in> set (butlast batch)" using x ne
          by (metis append_butlast_last_id set_append Un_iff empty_iff empty_set set_ConsD)
        moreover have "sorted (map ekey (butlast batch @ [last batch]))"
          using Cons.prems(1) ne by (simp add: sorted_append)
        ultimately show ?thesis by (simp add: sorted_append)
      qed
      have lm: "ekey (last batch) \<le> ekey m"
        using Cons.prems(1) ne by (auto simp: sorted_append)
      have "ekey (last batch) \<noteq> ekey m"
        using True ne Cons.prems(2) by (auto simp: bytes_Compare_def ekey_def Compare_eq_0)
      then have 2: "ekey (last batch) < ekey m" using lm by simp
      have 3: "ekey m \<le> ekey y" using ym Cons.prems(1) by (auto simp: sorted_append)
      show "ekey x < ekey y" using 1 2 3 by simp
    qed
    then show ?thesis using True s by auto
  next
    case False
    have "sorted_wrt (\<lambda>b1 b2. \<forall>x\<in>set b1. \<forall>y\<in>set b2. ekey x < ekey y)
        (partition_batches B ms (batch @ [m]) (Key m))"
      by (rule Cons.IH) (use Cons.prems in \<open>auto simp: ekey_def\<close>)
    then show ?thesis using False by auto
  qed
qed

lemma shufflePostings_as_partition:
  assumes "\<forall>c\<in>set chs. c \<noteq> []"
  shows "\<exists>ms. shufflePostings chs = Inr (partition_batches batchSize ms [] None) \<and>
           mset ms = sum_list (map mset chs) \<and>
           ((\<forall>c\<in>set chs. sorted (map ekey c)) \<longrightarrow> sorted (map ekey ms))"
proof -
  from merge_of_sources[OF assms]
  obtain ph ms where m: "seed_loop [] chs = Inr ph" "merge_loop ph = Inr ms"
    "mset ms = sum_list (map mset chs)"
    "(\<forall>c\<in>set chs. sorted (map ekey c)) \<longrightarrow> sorted (map ekey ms)"
    by blast
  have "shufflePostings chs = Inr (partition_batches batchSize ms [] None)"
    using m(1) shuffle_is_partition_of_merge[OF m(2)] by (simp add: shufflePostings_def)
  then show ?thesis using m(3,4) by blast
qed

lemma bytes_Compare_less: "bytes_Compare (Key a) (Key b) < 0 \<longleftrightarrow> ekey a < ekey b"
  by (simp add: bytes_Compare_ekey)

text \<open>Rules to evaluate the model on concrete inputs.\<close>

lemmas heap_eval = shufflePostings_def seed_loop.simps heap_Push_def Push_def heap_up.simps
  heap_Pop_def Pop_def heap_Fix_def heap_down_def heap_down_loop.simps Less_def Swap_def
  next_entry_def shufflePostings_loop.simps bytes_Compare_def bytesOf_def Let_def batchSize_def

lemma seed_loop_append:
  "seed_loop ph (xs @ ys) =
     (case seed_loop ph xs of Inl e \<Rightarrow> Inl e | Inr ph' \<Rightarrow> seed_loop ph' ys)"
  by (induction xs arbitrary: ph) (auto split: sum.splits)

lemma Less_nil:
  "mapEntry (h ! i) = None \<or> mapEntry (h ! j) = None \<Longrightarrow> Less h i j = Inl NilDereference"
  by (auto simp: Less_def split: option.splits)

lemma heap_Push_nil:
  "ph \<noteq> [] \<Longrightarrow> heap_Push ph \<lparr>mapEntry = None, ch = []\<rparr> = Inl NilDereference"
proof -
  assume ne: "ph \<noteq> []"
  let ?h = "ph @ [\<lparr>mapEntry = None, ch = []\<rparr>]"
  let ?j = "length ph"
  have j: "0 < ?j" using ne by simp
  then have p: "(?j - 1) div 2 \<noteq> ?j" by arith
  have "Less ?h ?j ((?j - 1) div 2) = Inl NilDereference"
    by (rule Less_nil) simp
  then have "heap_up ?h ?j = Inl NilDereference"
    using p by (subst heap_up.simps) (simp add: Let_def)
  then show ?thesis by (simp add: heap_Push_def Push_def)
qed

lemma seed_loop_nil_root:
  "seed_loop [\<lparr>mapEntry = None, ch = []\<rparr>] (c # post) = Inl NilDereference"
proof -
  let ?h = "[\<lparr>mapEntry = None, ch = []\<rparr>, node_of c]"
  have "Less ?h 1 0 = Inl NilDereference" by (rule Less_nil) simp
  then have "heap_up ?h 1 = Inl NilDereference"
    by (subst heap_up.simps) (simp add: Let_def)
  then show ?thesis by (simp add: heap_Push_def Push_def node_of_def)
qed

lemma empty_source_panics:
  assumes "[] \<in> set mapEntryChs"
  shows "shufflePostings mapEntryChs = Inl NilDereference"
proof -
  from split_list_first[OF assms]
  obtain pre post where s: "mapEntryChs = pre @ [] # post" "[] \<notin> set pre" by blast
  have ne: "\<forall>c\<in>set pre. c \<noteq> []" using s(2) by auto
  from seed_correct[OF heap_inv_Nil ne]
  obtain ph where ph: "seed_loop [] pre = Inr ph" by blast
  have seed: "seed_loop [] mapEntryChs = seed_loop ph ([] # post)"
    unfolding s(1) seed_loop_append ph by simp
  show ?thesis
  proof (cases "ph = []")
    case False
    then show ?thesis
      using seed heap_Push_nil[OF False] by (simp add: shufflePostings_def)
  next
    case True
    have push: "heap_Push [] \<lparr>mapEntry = None, ch = []\<rparr> = Inr [\<lparr>mapEntry = None, ch = []\<rparr>]"
      by (simp add: heap_Push_def Push_def heap_up_0)
    show ?thesis
    proof (cases post)
      case Nil
      then show ?thesis
        using seed True push by (simp add: heap_eval)
    next
      case (Cons c post')
      then show ?thesis
        using seed True push seed_loop_nil_root[of c post']
        by (simp add: shufflePostings_def)
    qed
  qed
qed

text \<open>
  For sources that are all non-empty and sorted by key, the entries leave the heap in key
  order and each exactly once.
\<close>

lemma shufflePostings_merges:
  assumes "\<forall>c\<in>set mapEntryChs.
             c \<noteq> [] \<and> sorted_wrt (\<lambda>a b. bytes_Compare (Key a) (Key b) \<le> 0) c"
  shows "\<exists>batches. shufflePostings mapEntryChs = Inr batches \<and>
           sorted_wrt (\<lambda>a b. bytes_Compare (Key a) (Key b) \<le> 0) (concat batches) \<and>
           mset (concat batches) = sum_list (map mset mapEntryChs)"
proof -
  have ne: "\<forall>c\<in>set mapEntryChs. c \<noteq> []" using assms by simp
  have so: "\<forall>c\<in>set mapEntryChs. sorted (map ekey c)"
    using assms by (simp add: sorted_wrt_Compare)
  from shufflePostings_as_partition[OF ne] so
  obtain ms where m: "shufflePostings mapEntryChs = Inr (partition_batches batchSize ms [] None)"
    "mset ms = sum_list (map mset mapEntryChs)" "sorted (map ekey ms)"
    by blast
  show ?thesis
    using m by (simp add: concat_partition sorted_wrt_Compare)
qed


section \<open>The merge stage and the batch partitioner: claims\<close>

text \<open>
  The example of the specification: shards with keys \<open>a c e\<close>, \<open>b c f\<close> and \<open>c d\<close>. The
  three entries of key \<open>c\<close> come out in the order the heap gives them. With a target size
  of 2 instead of 100000 the same sources are cut into four batches, the three entries of
  key \<open>c\<close> together.
\<close>

lemma shufflePostings_example:
  "shufflePostings [[ent 97 1, ent 99 2, ent 101 3], [ent 98 4, ent 99 5, ent 102 6],
                    [ent 99 7, ent 100 8]] =
     Inr [[ent 97 1, ent 98 4, ent 99 5, ent 99 2, ent 99 7, ent 100 8, ent 101 3, ent 102 6]]"
  by (simp add: heap_eval ent_def)

lemma shufflePostings_loop_example:
  "(case seed_loop [] [[ent 97 1, ent 99 2, ent 101 3], [ent 98 4, ent 99 5, ent 102 6],
                       [ent 99 7, ent 100 8]] of
      Inl e \<Rightarrow> Inl e
    | Inr ph \<Rightarrow> shufflePostings_loop 2 ph [] None) =
     Inr [[ent 97 1, ent 98 4], [ent 99 5, ent 99 2, ent 99 7], [ent 100 8, ent 101 3],
          [ent 102 6]]"
  by (simp add: heap_eval ent_def)

text \<open>
  C1. The claim: the merged sequence is sorted and is the multiset union of the sources,
  also when some source is empty, the heap being seeded only from the non-empty sources.
  For sources that all hold an entry this is \<open>shufflePostings_merges\<close> above. But the code
  seeds the heap with the result of \<^verbatim>\<open><-ch\<close> for every source without testing whether the
  channel delivered anything, so an empty source puts a nil entry on the heap, and the
  process panics on a nil dereference: in \<^verbatim>\<open>Less\<close> as soon as the node is compared, or at
  \<^verbatim>\<open>me.Key\<close> when the empty source is the only one (\<open>empty_source_panics\<close>: for every list
  of sources with an empty one).
\<close>

theorem shufflePostings_empty_source:
  "shufflePostings [[]] = Inl NilDereference \<and>
   shufflePostings [[], [e]] = Inl NilDereference \<and>
   shufflePostings [[e], []] = Inl NilDereference"
  by (simp add: heap_eval)

text \<open>
  C2. For sources that are non-empty and sorted by key, the partitioner returns batches
  in which no key occurs in two different batches (every key of an earlier batch is
  strictly below every key of a later one), and each batch boundary lies where the key of
  the next entry differs from the key of the last entry appended.
\<close>

theorem no_key_in_two_batches:
  assumes "\<forall>c\<in>set mapEntryChs.
             c \<noteq> [] \<and> sorted_wrt (\<lambda>a b. bytes_Compare (Key a) (Key b) \<le> 0) c"
  shows "\<exists>batches. shufflePostings mapEntryChs = Inr batches \<and>
           (\<forall>i j. i < j \<and> j < length batches \<longrightarrow>
              (\<forall>a\<in>set (batches ! i). \<forall>b\<in>set (batches ! j).
                 bytes_Compare (Key a) (Key b) < 0)) \<and>
           (\<forall>i. Suc i < length batches \<longrightarrow>
              bytes_Compare (Key (last (batches ! i))) (Key (hd (batches ! Suc i))) \<noteq> 0)"
proof -
  have ne: "\<forall>c\<in>set mapEntryChs. c \<noteq> []" using assms by simp
  have so: "\<forall>c\<in>set mapEntryChs. sorted (map ekey c)"
    using assms by (simp add: sorted_wrt_Compare)
  from shufflePostings_as_partition[OF ne] so
  obtain ms where m: "shufflePostings mapEntryChs = Inr (partition_batches batchSize ms [] None)"
    "sorted (map ekey ms)"
    by blast
  let ?bs = "partition_batches batchSize ms [] None"
  have "sorted_wrt (\<lambda>b1 b2. \<forall>x\<in>set b1. \<forall>y\<in>set b2. ekey x < ekey y) ?bs"
    by (rule partition_ordered) (use m(2) in simp_all)
  then have 1: "\<forall>i j. i < j \<and> j < length ?bs \<longrightarrow>
      (\<forall>a\<in>set (?bs ! i). \<forall>b\<in>set (?bs ! j). bytes_Compare (Key a) (Key b) < 0)"
    unfolding sorted_wrt_iff_nth_less bytes_Compare_less by blast
  have "successively (\<lambda>b1 b2. ekey (last b1) \<noteq> ekey (hd b2)) ?bs"
    by (rule partition_boundaries) (simp_all add: batchSize_def)
  then have 2: "\<forall>i. Suc i < length ?bs \<longrightarrow>
      bytes_Compare (Key (last (?bs ! i))) (Key (hd (?bs ! Suc i))) \<noteq> 0"
    by (simp add: successively_conv_nth bytes_Compare_def ekey_def Compare_eq_0)
  show ?thesis using m(1) 1 2 by blast
qed

theorem no_key_in_two_batches_witness:
  "\<exists>batches.
     shufflePostings [[ent 97 1, ent 99 2, ent 101 3], [ent 98 4, ent 99 5, ent 102 6],
                      [ent 99 7, ent 100 8]] = Inr batches \<and>
     (\<forall>i j. i < j \<and> j < length batches \<longrightarrow>
        (\<forall>a\<in>set (batches ! i). \<forall>b\<in>set (batches ! j). bytes_Compare (Key a) (Key b) < 0)) \<and>
     (\<forall>i. Suc i < length batches \<longrightarrow>
        bytes_Compare (Key (last (batches ! i))) (Key (hd (batches ! Suc i))) \<noteq> 0)"
  by (rule no_key_in_two_batches) (simp add: ent_def bytes_Compare_def bytesOf_def)

text \<open>
  C6. Every batch but the last holds at least 100000 entries; a batch is closed only
  where the next entry's key differs from that of the last entry appended; no batch is
  empty (the last one is sent only if it holds an entry); and the batches together hold
  exactly the entries of the sources.
\<close>

theorem batches_reach_target:
  assumes "\<forall>c\<in>set mapEntryChs. c \<noteq> []"
  shows "\<exists>batches. shufflePostings mapEntryChs = Inr batches \<and>
           (\<forall>b\<in>set (butlast batches). 100000 \<le> length b) \<and>
           (\<forall>b\<in>set batches. b \<noteq> []) \<and>
           (\<forall>i. Suc i < length batches \<longrightarrow>
              bytes_Compare (Key (last (batches ! i))) (Key (hd (batches ! Suc i))) \<noteq> 0) \<and>
           mset (concat batches) = sum_list (map mset mapEntryChs)"
proof -
  from shufflePostings_as_partition[OF assms]
  obtain ms where m: "shufflePostings mapEntryChs = Inr (partition_batches batchSize ms [] None)"
    "mset ms = sum_list (map mset mapEntryChs)"
    by blast
  let ?bs = "partition_batches batchSize ms [] None"
  have 1: "\<forall>b\<in>set (butlast ?bs). 100000 \<le> length b"
    using partition_sizes[of batchSize ms "[]" None] by (simp add: batchSize_def)
  have 2: "\<forall>b\<in>set ?bs. b \<noteq> []"
    using partition_nonempty[of batchSize ms "[]" None] by (auto simp: batchSize_def)
  have "successively (\<lambda>b1 b2. ekey (last b1) \<noteq> ekey (hd b2)) ?bs"
    by (rule partition_boundaries) (simp_all add: batchSize_def)
  then have 3: "\<forall>i. Suc i < length ?bs \<longrightarrow>
      bytes_Compare (Key (last (?bs ! i))) (Key (hd (?bs ! Suc i))) \<noteq> 0"
    by (simp add: successively_conv_nth bytes_Compare_def ekey_def Compare_eq_0)
  have 4: "mset (concat ?bs) = sum_list (map mset mapEntryChs)"
    using m(2) by (simp add: concat_partition)
  show ?thesis using m(1) 1 2 3 4 by blast
qed

theorem batches_reach_target_witness:
  "\<exists>batches.
     shufflePostings [[ent 97 1, ent 99 2, ent 101 3], [ent 98 4, ent 99 5, ent 102 6],
                      [ent 99 7, ent 100 8]] = Inr batches \<and>
     (\<forall>b\<in>set (butlast batches). 100000 \<le> length b) \<and>
     (\<forall>b\<in>set batches. b \<noteq> []) \<and>
     (\<forall>i. Suc i < length batches \<longrightarrow>
        bytes_Compare (Key (last (batches ! i))) (Key (hd (batches ! Suc i))) \<noteq> 0) \<and>
     mset (concat batches) =
       sum_list (map mset [[ent 97 1, ent 99 2, ent 101 3], [ent 98 4, ent 99 5, ent 102 6],
                      [ent 99 7, ent 100 8]])"
  by (rule batches_reach_target) simp


section \<open>Runs of equal keys\<close>

lemma concat_runs: "concat (runs f xs) = xs"
  by (induction f xs rule: runs.induct) simp_all

lemma runs_same_key: "r \<in> set (runs f xs) \<Longrightarrow> r \<noteq> [] \<and> (\<forall>y\<in>set r. f (hd r) = f y)"
proof (induction f xs arbitrary: r rule: runs.induct)
  case (1 f)
  then show ?case by simp
next
  case (2 f x xs)
  let ?P = "\<lambda>y. f y = f x"
  from "2.prems" have "r = x # takeWhile ?P xs \<or> r \<in> set (runs f (dropWhile ?P xs))"
    by (simp only: runs.simps set_simps insert_iff)
  then show ?case
  proof
    assume r: "r = x # takeWhile ?P xs"
    show ?thesis
    proof (intro conjI ballI)
      show "r \<noteq> []" unfolding r by simp
      fix y assume "y \<in> set r"
      then have "y = x \<or> y \<in> set (takeWhile ?P xs)" unfolding r by simp
      then have "f x = f y"
      proof
        assume "y = x" then show ?thesis by simp
      next
        assume "y \<in> set (takeWhile ?P xs)"
        from set_takeWhileD[OF this] show ?thesis by simp
      qed
      then show "f (hd r) = f y" unfolding r by (simp only: list.sel)
    qed
  next
    assume "r \<in> set (runs f (dropWhile ?P xs))"
    then show ?thesis by (rule "2.IH")
  qed
qed

lemma runs_keys: "map (\<lambda>r. f (hd r)) (runs f xs) = remdups_adj (map f xs)"
proof (induction f xs rule: runs.induct)
  case (1 f)
  show ?case by simp
next
  case (2 f x xs)
  have "(\<lambda>y. y = f x) \<circ> f = (\<lambda>y. f y = f x)" by auto
  then show ?case using 2 by (simp add: remdups_adj_Cons' dropWhile_map)
qed

lemma runs_single:
  assumes "cur \<noteq> []" "\<forall>y\<in>set cur. c = f y"
  shows "runs f cur = [cur]"
proof -
  obtain x cs where c: "cur = x # cs" using assms(1) by (cases cur) auto
  have a: "\<forall>y\<in>set cs. f x = f y" using assms(2) c by auto
  have t: "takeWhile (\<lambda>y. f y = f x) cs = cs"
    unfolding takeWhile_eq_all_conv using a by metis
  have d: "dropWhile (\<lambda>y. f y = f x) cs = []"
    unfolding dropWhile_eq_Nil_conv using a by metis
  show ?thesis unfolding c by (simp only: runs.simps t d)
qed

lemma runs_cut:
  assumes "cur \<noteq> []" "\<forall>y\<in>set cur. c = f y" "f m \<noteq> c"
  shows "runs f (cur @ m # rest) = cur # runs f (m # rest)"
proof -
  obtain x cs where c: "cur = x # cs" using assms(1) by (cases cur) auto
  have a: "\<forall>y\<in>set cs. f x = f y" and b: "f m \<noteq> f x" using assms(2,3) c by auto
  have a': "\<And>y. y \<in> set cs \<Longrightarrow> (\<lambda>y. f y = f x) y" using a by metis
  have t: "takeWhile (\<lambda>y. f y = f x) (cs @ m # rest) = cs"
    using takeWhile_append2[of cs "\<lambda>y. f y = f x" "m # rest"] a' b by simp
  have d: "dropWhile (\<lambda>y. f y = f x) (cs @ m # rest) = m # rest"
    using dropWhile_append2[of cs "\<lambda>y. f y = f x" "m # rest"] a' b by simp
  show ?thesis unfolding c by (simp only: runs.simps t d append_Cons)
qed

lemma concat_filter_run:
  assumes "distinct (map g R)" "r \<in> set R" "\<forall>r'\<in>set R. \<forall>y\<in>set r'. g r' = f y"
  shows "concat (map (filter (\<lambda>y. f y = g r)) R) = r"
  using assms
proof (induction R)
  case Nil
  then show ?case by simp
next
  case (Cons a R)
  have same: "filter (\<lambda>y. f y = g r) r' = r'" if "r' \<in> set (a # R)" "g r' = g r" for r'
    unfolding filter_id_conv using Cons.prems(3) that by metis
  have diff: "filter (\<lambda>y. f y = g r) r' = []" if "r' \<in> set (a # R)" "g r' \<noteq> g r" for r'
    unfolding filter_empty_conv using Cons.prems(3) that by metis
  show ?case
  proof (cases "a = r")
    case True
    have "\<forall>r'\<in>set R. filter (\<lambda>y. f y = g r) r' = []"
    proof
      fix r' assume r': "r' \<in> set R"
      then have "g r' \<in> g ` set R" by simp
      moreover have "g r \<notin> g ` set R" using Cons.prems(1) True by simp
      ultimately have "g r' \<noteq> g r" by metis
      then show "filter (\<lambda>y. f y = g r) r' = []" using diff r' by simp
    qed
    then have "concat (map (filter (\<lambda>y. f y = g r)) R) = []" by simp
    moreover have "filter (\<lambda>y. f y = g r) a = a" using same[of a] True by simp
    ultimately show ?thesis using True by simp
  next
    case False
    then have rR: "r \<in> set R" using Cons.prems(2) by simp
    then have "g r \<in> g ` set R" by simp
    moreover have "g a \<notin> g ` set R" using Cons.prems(1) by simp
    ultimately have "g a \<noteq> g r" by metis
    then have "filter (\<lambda>y. f y = g r) a = []" using diff[of a] by simp
    moreover have "concat (map (filter (\<lambda>y. f y = g r)) R) = r"
    proof (rule Cons.IH)
      show "distinct (map g R)" using Cons.prems(1) by simp
      show "r \<in> set R" by (rule rR)
      show "\<forall>r'\<in>set R. \<forall>y\<in>set r'. g r' = f y" using Cons.prems(3) by simp
    qed
    ultimately show ?thesis by simp
  qed
qed

lemma run_is_filter:
  assumes "distinct (remdups_adj (map f xs))" "r \<in> set (runs f xs)"
  shows "r = filter (\<lambda>y. f y = f (hd r)) xs"
proof -
  have d: "distinct (map (\<lambda>r. f (hd r)) (runs f xs))" using assms(1) by (simp add: runs_keys)
  have s: "\<forall>r'\<in>set (runs f xs). \<forall>y\<in>set r'. f (hd r') = f y"
    using runs_same_key by blast
  have "filter (\<lambda>y. f y = f (hd r)) xs =
      filter (\<lambda>y. f y = f (hd r)) (concat (runs f xs))" by (simp add: concat_runs)
  also have "\<dots> = concat (map (filter (\<lambda>y. f y = f (hd r))) (runs f xs))"
    by (simp add: filter_concat)
  also have "\<dots> = r" by (rule concat_filter_run[OF d assms(2) s])
  finally show ?thesis by simp
qed

lemma one_run_per_key:
  assumes "distinct (remdups_adj (map f xs))" "k \<in> f ` set xs"
  shows "length (filter (\<lambda>r. f (hd r) = k) (runs f xs)) = 1"
proof -
  let ?ks = "map (\<lambda>r. f (hd r)) (runs f xs)"
  have d: "distinct ?ks" using assms(1) by (simp add: runs_keys)
  have m: "k \<in> set ?ks" using assms(2) by (simp add: runs_keys)
  have "length (filter (\<lambda>r. f (hd r) = k) (runs f xs)) = length (filter (\<lambda>y. y = k) ?ks)"
    by (simp add: filter_map comp_def)
  also have "\<dots> = card ({y. y = k} \<inter> set ?ks)" using d by (rule distinct_length_filter)
  also have "{y. y = k} \<inter> set ?ks = {k}" using m by auto
  finally show ?thesis by simp
qed

lemma sorted_distinct_remdups_adj:
  "sorted xs \<Longrightarrow> distinct (remdups_adj (xs :: 'a::linorder list))"
proof (induction xs rule: remdups_adj.induct)
  case (3 x y xs)
  show ?case
  proof (cases "x = y")
    case True
    then show ?thesis using 3 by simp
  next
    case False
    have "x \<notin> set (y # xs)" using "3.prems" False by auto
    then show ?thesis using 3 False by simp
  qed
qed simp_all


section \<open>The reduce step: one entry for each run of equal keys\<close>

lemma reduce_alt:
  "reduce DP MT batch =
     reduce_finish DP MT (reduce_loop DP MT batch None [] \<lparr>Postings = [], Uids = None\<rparr> [])"
  by (simp add: reduce_def reduce_finish_def)

lemma map_filter_append:
  "List.map_filter f (xs @ ys) = List.map_filter f xs @ List.map_filter f ys"
  by (simp add: List.map_filter_def)

lemma outputPostingList_run:
  assumes "\<forall>pl. MT pl \<noteq> None" "\<forall>us. us \<noteq> [] \<longrightarrow> DP us = Inr (pack us)" "cur \<noteq> []"
  shows "outputPostingList DP MT (Key (last cur)) (map mapEntryUid cur)
           \<lparr>Postings = List.map_filter Posting cur, Uids = None\<rparr> entries =
         Inr ([], \<lparr>Postings = [], Uids = None\<rparr>, entries @ [encodeRun pack MT cur])"
proof -
  have dp: "DP (map mapEntryUid cur) = Inr (pack (map mapEntryUid cur))"
    using assms(2,3) by simp
  show ?thesis
  proof (cases "List.map_filter Posting cur = []")
    case True
    then show ?thesis by (simp add: outputPostingList_def encodeRun_def dp)
  next
    case False
    obtain buf where "MT \<lparr>Postings = List.map_filter Posting cur,
        Uids = pack (map mapEntryUid cur)\<rparr> = Some buf"
      using assms(1) by (meson option.exhaust)
    then show ?thesis using False by (simp add: outputPostingList_def encodeRun_def dp)
  qed
qed

lemma bytes_Compare_ne:
  "bytes_Compare a b \<noteq> 0 \<longleftrightarrow> bytesOf a \<noteq> bytesOf b"
  by (simp add: bytes_Compare_def Compare_eq_0)

lemma add_entry:
  "(case Posting m of
      None \<Rightarrow> F (us @ [Uid m]) \<lparr>Postings = ps, Uids = None\<rparr>
    | Some p \<Rightarrow> F (us @ [PUid p])
        (\<lparr>Postings = ps, Uids = None\<rparr>\<lparr>Postings := Postings \<lparr>Postings = ps, Uids = None\<rparr> @ [p]\<rparr>)) =
   F (us @ [mapEntryUid m]) \<lparr>Postings = ps @ List.map_filter Posting [m], Uids = None\<rparr>"
  by (simp add: mapEntryUid_def List.map_filter_simps split: option.splits)

lemma reduce_loop_same:
  assumes "\<not> (bytes_Compare (Key m) ck \<noteq> 0 \<and> ck \<noteq> None)"
  shows "reduce_loop DP MT (m # rest) ck (map mapEntryUid cur)
          \<lparr>Postings = List.map_filter Posting cur, Uids = None\<rparr> entries =
        reduce_loop DP MT rest (Key m) (map mapEntryUid (cur @ [m]))
          \<lparr>Postings = List.map_filter Posting (cur @ [m]), Uids = None\<rparr> entries"
  apply (subst reduce_loop.simps(2))
  apply (simp only: assms simp_thms if_False sum.case prod.case)
  apply (subst add_entry[where m = m and F = "\<lambda>u p. reduce_loop DP MT rest (Key m) u p entries"])
  apply (simp only: map_filter_append map_append list.map)
  done

lemma reduce_loop_cut:
  assumes "bytes_Compare (Key m) ck \<noteq> 0 \<and> ck \<noteq> None" "\<forall>pl. MT pl \<noteq> None" "ck = Key (last cur)"
    "\<forall>us. us \<noteq> [] \<longrightarrow> DP us = Inr (pack us)" "cur \<noteq> []"
  shows "reduce_loop DP MT (m # rest) ck (map mapEntryUid cur)
          \<lparr>Postings = List.map_filter Posting cur, Uids = None\<rparr> entries =
        reduce_loop DP MT rest (Key m) (map mapEntryUid [m])
          \<lparr>Postings = List.map_filter Posting [m], Uids = None\<rparr>
          (entries @ [encodeRun pack MT cur])"
  apply (subst reduce_loop.simps(2))
  apply (simp only: assms(3) outputPostingList_run[OF assms(2,4,5)])
  apply (simp only: assms(1)[unfolded assms(3)] simp_thms if_True sum.case prod.case)
  apply (subst add_entry[where m = m and F = "\<lambda>u p. reduce_loop DP MT rest (Key m) u p (entries @ [encodeRun pack MT cur])"])
  apply (simp only: list.map append_Nil)
  done

lemma reduce_loop_runs:
  assumes mt: "\<forall>pl. MT pl \<noteq> None" and dp: "\<forall>us. us \<noteq> [] \<longrightarrow> DP us = Inr (pack us)"
  shows "\<forall>m\<in>set rest. Key m \<noteq> None \<Longrightarrow> cur \<noteq> [] \<Longrightarrow> \<forall>y\<in>set cur. ekey (last cur) = ekey y \<Longrightarrow>
     Key (last cur) \<noteq> None \<Longrightarrow>
     reduce_finish DP MT
       (reduce_loop DP MT rest (Key (last cur)) (map mapEntryUid cur)
          \<lparr>Postings = List.map_filter Posting cur, Uids = None\<rparr> entries) =
     Inr (entries @ map (encodeRun pack MT) (runs ekey (cur @ rest)))"
proof (induction rest arbitrary: cur entries)
  case Nil
  have "runs ekey cur = [cur]" by (rule runs_single[OF Nil(2,3)])
  then show ?case
    by (simp add: reduce_finish_def outputPostingList_run[OF mt dp Nil(2)])
next
  case (Cons m rest)
  have km: "Key m \<noteq> None" and kr: "\<forall>m\<in>set rest. Key m \<noteq> None" using Cons.prems(1) by auto
  let ?ck = "Key (last cur)"
  show ?case
  proof (cases "ekey m = ekey (last cur)")
    case True
    then have c: "\<not> (bytes_Compare (Key m) ?ck \<noteq> 0 \<and> ?ck \<noteq> None)"
      by (simp add: bytes_Compare_ne ekey_def)
    have l: "reduce_loop DP MT (m # rest) ?ck (map mapEntryUid cur)
          \<lparr>Postings = List.map_filter Posting cur, Uids = None\<rparr> entries =
        reduce_loop DP MT rest (Key (last (cur @ [m]))) (map mapEntryUid (cur @ [m]))
          \<lparr>Postings = List.map_filter Posting (cur @ [m]), Uids = None\<rparr> entries"
      using reduce_loop_same[OF c] by simp
    have "reduce_finish DP MT
       (reduce_loop DP MT rest (Key (last (cur @ [m]))) (map mapEntryUid (cur @ [m]))
          \<lparr>Postings = List.map_filter Posting (cur @ [m]), Uids = None\<rparr> entries) =
       Inr (entries @ map (encodeRun pack MT) (runs ekey ((cur @ [m]) @ rest)))"
    proof (rule Cons.IH)
      show "\<forall>m\<in>set rest. Key m \<noteq> None" by (rule kr)
      show "cur @ [m] \<noteq> []" by simp
      have "\<forall>y\<in>set cur. ekey m = ekey y" using Cons.prems(3) True by metis
      then show "\<forall>y\<in>set (cur @ [m]). ekey (last (cur @ [m])) = ekey y" by simp
      show "Key (last (cur @ [m])) \<noteq> None" using km by simp
    qed
    then show ?thesis unfolding l by simp
  next
    case False
    then have c: "bytes_Compare (Key m) ?ck \<noteq> 0 \<and> ?ck \<noteq> None"
      using Cons.prems(4) by (simp add: bytes_Compare_ne ekey_def)
    have l: "reduce_loop DP MT (m # rest) ?ck (map mapEntryUid cur)
          \<lparr>Postings = List.map_filter Posting cur, Uids = None\<rparr> entries =
        reduce_loop DP MT rest (Key (last [m])) (map mapEntryUid [m])
          \<lparr>Postings = List.map_filter Posting [m], Uids = None\<rparr>
          (entries @ [encodeRun pack MT cur])"
      using reduce_loop_cut[OF c mt refl dp Cons.prems(2)] by simp
    have "reduce_finish DP MT
       (reduce_loop DP MT rest (Key (last [m])) (map mapEntryUid [m])
          \<lparr>Postings = List.map_filter Posting [m], Uids = None\<rparr>
          (entries @ [encodeRun pack MT cur])) =
       Inr ((entries @ [encodeRun pack MT cur]) @ map (encodeRun pack MT) (runs ekey ([m] @ rest)))"
    proof (rule Cons.IH)
      show "\<forall>m\<in>set rest. Key m \<noteq> None" by (rule kr)
      show "[m] \<noteq> []" by simp
      show "\<forall>y\<in>set [m]. ekey (last [m]) = ekey y" by simp
      show "Key (last [m]) \<noteq> None" using km by simp
    qed
    moreover have "runs ekey (cur @ m # rest) = cur # runs ekey (m # rest)"
      by (rule runs_cut[OF Cons.prems(2,3) False])
    ultimately show ?thesis unfolding l by simp
  qed
qed

lemma reduce_runs:
  assumes "\<forall>pl. MT pl \<noteq> None" "\<forall>m\<in>set batch. Key m \<noteq> None" "batch \<noteq> []"
    "\<forall>us. us \<noteq> [] \<longrightarrow> DP us = Inr (pack us)"
  shows "reduce DP MT batch = Inr (map (encodeRun pack MT) (runs ekey batch))"
proof -
  obtain m rest where b: "batch = m # rest" using assms(3) by (cases batch) auto
  have n: "\<not> (bytes_Compare (Key m) None \<noteq> 0 \<and> (None :: bytes) \<noteq> None)" by simp
  have "reduce_loop DP MT (m # rest) None [] \<lparr>Postings = [], Uids = None\<rparr> [] =
      reduce_loop DP MT rest (Key (last [m])) (map mapEntryUid [m])
        \<lparr>Postings = List.map_filter Posting [m], Uids = None\<rparr> []"
    using reduce_loop_same[OF n, of DP MT rest "[]" "[]"] by (simp add: List.map_filter_simps)
  moreover have "reduce_finish DP MT
       (reduce_loop DP MT rest (Key (last [m])) (map mapEntryUid [m])
          \<lparr>Postings = List.map_filter Posting [m], Uids = None\<rparr> []) =
       Inr ([] @ map (encodeRun pack MT) (runs ekey ([m] @ rest)))"
    by (rule reduce_loop_runs[OF assms(1,4)]) (use assms(2) b in auto)
  ultimately show ?thesis unfolding reduce_alt b by simp
qed

lemma reduce_Nil:
  "reduce DP MT [] =
     (case DP [] of
        Inl e \<Rightarrow> Inl e
      | Inr packed \<Rightarrow> Inr [\<lparr>EKey = None, EValue = packed, UserMeta = 1\<rparr>])"
  by (simp add: reduce_def outputPostingList_def split: sum.splits)

text \<open>
  So \<^verbatim>\<open>reduce\<close> emits the entry the specification asks for every key of a batch whose
  keys are not nil and in which the map entries of a key are adjacent, as they are in a
  batch of the merge stage. The nil \<open>currentKey\<close> stands for "no key yet": a map entry
  with a nil key at the head of a batch is merged into the posting list of the next key.
\<close>

lemma runs_image_per_key:
  assumes "distinct (remdups_adj (map f xs))" "k \<in> f ` set xs"
    and "\<forall>r\<in>set (runs f xs). g (h r) = f (hd r)"
  shows "filter (\<lambda>e. g e = k) (map h (runs f xs)) = [h (filter (\<lambda>y. f y = k) xs)]"
proof -
  have a: "filter (\<lambda>e. g e = k) (map h (runs f xs)) = map h (filter (\<lambda>r. g (h r) = k) (runs f xs))"
    by (simp add: filter_map comp_def)
  have b: "filter (\<lambda>r. g (h r) = k) (runs f xs) = filter (\<lambda>r. f (hd r) = k) (runs f xs)"
    by (rule filter_cong[OF refl]) (use assms(3) in metis)
  have "length (filter (\<lambda>r. f (hd r) = k) (runs f xs)) = 1"
    by (rule one_run_per_key[OF assms(1,2)])
  then obtain r where r: "filter (\<lambda>r. f (hd r) = k) (runs f xs) = [r]"
    by (cases "filter (\<lambda>r. f (hd r) = k) (runs f xs)") auto
  have "r \<in> set (filter (\<lambda>r. f (hd r) = k) (runs f xs))" unfolding r by simp
  then have m: "r \<in> set (runs f xs)" and hk: "f (hd r) = k" by auto
  have "r = filter (\<lambda>y. f y = f (hd r)) xs" by (rule run_is_filter[OF assms(1) m])
  then have "r = filter (\<lambda>y. f y = k) xs" unfolding hk .
  then show ?thesis unfolding a b r by simp
qed

lemma encodeRun_expected:
  assumes "r \<noteq> []" "Key (last r) \<noteq> None"
  shows "encodeRun pack MT r = expectedEntry pack MT (ekey (last r)) r"
proof -
  obtain k where "Key (last r) = Some k" using assms(2) by auto
  then show ?thesis by (simp add: encodeRun_def expectedEntry_def ekey_def bytesOf_def Let_def)
qed

lemma reduce_one_write_per_key:
  assumes "\<forall>us. us \<noteq> [] \<longrightarrow> DP us = Inr (pack us)" "\<forall>pl. MT pl \<noteq> None"
    and "\<forall>m\<in>set batch. Key m \<noteq> None" "distinct (remdups_adj (map ekey batch))"
    and "k \<in> ekey ` set batch"
  shows "\<exists>entries. reduce DP MT batch = Inr entries \<and>
           filter (\<lambda>e. bytesOf (EKey e) = k) entries =
             [expectedEntry pack MT k (filter (\<lambda>m. ekey m = k) batch)]"
proof -
  have ne: "batch \<noteq> []" using assms(5) by auto
  have red: "reduce DP MT batch = Inr (map (encodeRun pack MT) (runs ekey batch))"
    by (rule reduce_runs[OF assms(2,3) ne assms(1)])
  have keys: "\<forall>r\<in>set (runs ekey batch). bytesOf (EKey (encodeRun pack MT r)) = ekey (hd r)"
  proof
    fix r assume r: "r \<in> set (runs ekey batch)"
    from runs_same_key[OF r] have n: "r \<noteq> []" and s: "\<forall>y\<in>set r. ekey (hd r) = ekey y" by auto
    have "last r \<in> set r" using n by simp
    then have "ekey (hd r) = ekey (last r)" using s by blast
    moreover have "bytesOf (EKey (encodeRun pack MT r)) = ekey (last r)"
      by (simp add: encodeRun_def ekey_def)
    ultimately show "bytesOf (EKey (encodeRun pack MT r)) = ekey (hd r)" by simp
  qed
  have f: "filter (\<lambda>e. bytesOf (EKey e) = k) (map (encodeRun pack MT) (runs ekey batch)) =
      [encodeRun pack MT (filter (\<lambda>m. ekey m = k) batch)]"
    by (rule runs_image_per_key[where g = "\<lambda>e. bytesOf (EKey e)" and h = "encodeRun pack MT",
          OF assms(4,5) keys])
  let ?r = "filter (\<lambda>m. ekey m = k) batch"
  have rn: "?r \<noteq> []" using assms(5) by (auto simp: filter_empty_conv)
  then have lr: "last ?r \<in> set ?r" by (rule last_in_set)
  then have lk: "ekey (last ?r) = k" and lb: "last ?r \<in> set batch" by auto
  have "Key (last ?r) \<noteq> None" using assms(3) lb by blast
  from encodeRun_expected[OF rn this, of pack MT] have "encodeRun pack MT ?r = expectedEntry pack MT k ?r"
    unfolding lk .
  then show ?thesis using red f by simp
qed

lemma reduce_example:
  "reduce exampleDeltaPack exampleMarshal
     [\<lparr>Key = Some [1], Uid = 1, Posting = None\<rparr>,
      \<lparr>Key = Some [1], Uid = 0,
       Posting = Some \<lparr>PUid = 2, PValue = [120], PostingType = Posting_VALUE\<rparr>\<rparr>,
      \<lparr>Key = Some [2], Uid = 3, Posting = None\<rparr>] =
   Inr [\<lparr>EKey = Some [1],
         EValue = Some ([0, 0, 0, 0, 0, 0, 0, 2, 120] @
                        [0, 0, 0, 0, 0, 0, 0, 1, 0, 0, 0, 0, 0, 0, 0, 2]),
         UserMeta = 0\<rparr>,
        \<lparr>EKey = Some [2], EValue = Some [0, 0, 0, 0, 0, 0, 0, 3], UserMeta = 1\<rparr>]"
  by (simp add: reduce_def outputPostingList_def exampleDeltaPack_def examplePack_def
      exampleMarshal_def PutUint64_def bytes_Compare_def bytesOf_def)

lemma reduce_nil_first_key:
  "reduce exampleDeltaPack exampleMarshal
     [\<lparr>Key = None, Uid = 1, Posting = None\<rparr>, \<lparr>Key = Some [97], Uid = 2, Posting = None\<rparr>] =
     Inr [\<lparr>EKey = Some [97], EValue = examplePack [1, 2], UserMeta = 1\<rparr>]"
  by (simp add: reduce_def outputPostingList_def exampleDeltaPack_def)


section \<open>The staged finalizer: one write for each run of equal posting-list keys\<close>

lemma addToPL_run:
  assumes "wellFormed E it"
  shows "addToPL E it (List.map_filter (itemPosting E) cur) (map (itemUid E) cur) =
         Inr (List.map_filter (itemPosting E) (cur @ [it]), map (itemUid E) (cur @ [it]))"
  using assms
  by (auto simp: addToPL_def wellFormed_def extractUID_def itemUid_def itemPosting_def
      map_filter_append List.map_filter_simps)

lemma finalisePL_run:
  assumes "\<forall>pl. pl_Marshal E pl \<noteq> None"
  shows "finalisePL E (plKey (hd r)) (List.map_filter (itemPosting E) r) (map (itemUid E) r) =
         Inr (finalWrite E r)"
proof (cases "List.map_filter (itemPosting E) r = []")
  case True
  then show ?thesis by (simp add: finalisePL_def finalWrite_def)
next
  case False
  obtain buf where "pl_Marshal E \<lparr>Postings = List.map_filter (itemPosting E) r,
      Uids = bitPack E (map (itemUid E) r)\<rparr> = Some buf"
    using assms by (meson option.exhaust)
  then show ?thesis using False by (simp add: finalisePL_def finalWrite_def)
qed

lemma flushCounts_loop_site:
  "filter (\<lambda>w. wSite w = PostingListWrite) (flushCounts_loop CK BP a c h ord) = []"
  by (induction ord arbitrary: h) (auto simp: countIndexEntry_def Let_def filter_empty_conv)

lemma flushCounts_site:
  "filter (\<lambda>w. wSite w = PostingListWrite) (flushCounts CK BP a c ord) = []"
  by (simp add: flushCounts_def flushCounts_loop_site)

lemma extractPLKey_wf: "wellFormed E it \<Longrightarrow> extractPLKey (iKey it) = Inr (plKey it)"
  by (simp add: extractPLKey_def plKey_def wellFormed_def)

lemma finalWrite_site: "wSite (finalWrite E r) = PostingListWrite"
  by (simp add: finalWrite_def)

lemma sum_case_id: "(case x of Inl e \<Rightarrow> Inl e | Inr ws \<Rightarrow> Inr ws) = x"
  by (cases x) auto

lemma finaliseStep_cut:
  assumes "\<forall>pl. pl_Marshal E pl \<noteq> None"
  shows "finaliseStep E True (plKey (hd r)) (Some pk) (List.map_filter (itemPosting E) r)
           (map (itemUid E) r) counts =
         Inr ([finalWrite E r], [], [], recordCount E pk (map (itemUid E) r) counts)"
  by (simp add: finaliseStep_def finalisePL_run[OF assms] deref_def)

lemma finaliseStep_same:
  "finaliseStep E False k parsedK postings uids counts = Inr ([], postings, uids, counts)"
  by (simp add: finaliseStep_def)

lemma flushStep_last:
  "\<exists>cw counts'. flushStep E False newK (Some pk) counts = Inr (cw, counts') \<and>
      filter (\<lambda>w. wSite w = PostingListWrite) cw = []"
  by (simp add: flushStep_def deref_def flushCounts_site)

lemma flushStep_next:
  assumes "x_Parse E newK = Inr (Some pn)"
  shows "\<exists>cw counts'. flushStep E True newK (Some pk) counts = Inr (cw, counts') \<and>
      filter (\<lambda>w. wSite w = PostingListWrite) cw = []"
  by (simp add: flushStep_def deref_def flushCounts_site assms)

lemma flushStep_same_key:
  assumes "x_Parse E k = Inr (Some pk)"
  shows "flushStep E True k (Some pk) counts = Inr ([], counts)"
  by (simp add: flushStep_def deref_def assms)

lemma loop_last:
  assumes "wellFormed E item" "\<forall>pl. pl_Marshal E pl \<noteq> None" "plKey (hd (cur @ [item])) = plKey item"
  shows "\<exists>ws. buildPostingLists_loop E [item] (plKey item)
             (List.map_filter (itemPosting E) cur) (map (itemUid E) cur) counts = Inr ws \<and>
           filter (\<lambda>w. wSite w = PostingListWrite) ws = [finalWrite E (cur @ [item])]"
proof -
  obtain pk where pk: "x_Parse E (plKey item) = Inr (Some pk)"
    using assms(1) by (auto simp: wellFormed_def)
  let ?c1 = "recordCount E pk (map (itemUid E) (cur @ [item])) counts"
  obtain cw counts' where fs: "flushStep E False [] (Some pk) ?c1 = Inr (cw, counts')"
    and cw: "filter (\<lambda>w. wSite w = PostingListWrite) cw = []"
    using flushStep_last by blast
  have fin: "finaliseStep E True (plKey item) (Some pk)
      (List.map_filter (itemPosting E) (cur @ [item])) (map (itemUid E) (cur @ [item])) counts =
      Inr ([finalWrite E (cur @ [item])], [], [], ?c1)"
    using finaliseStep_cut[OF assms(2), of "cur @ [item]" pk counts] unfolding assms(3) .
  have "buildPostingLists_loop E [item] (plKey item)
             (List.map_filter (itemPosting E) cur) (map (itemUid E) cur) counts =
        Inr ([finalWrite E (cur @ [item])] @ cw @ [])"
    apply (subst buildPostingLists_loop.simps(2))
    apply (simp only: addToPL_run[OF assms(1)] list.case sum.case prod.case pk simp_thms
        fin fs buildPostingLists_loop.simps(1))
    done
  then show ?thesis by (simp add: cw finalWrite_site)
qed

lemma loop_same:
  assumes "wellFormed E item" "wellFormed E nxt" "plKey nxt = plKey item"
  shows "buildPostingLists_loop E (item # nxt # rest) (plKey item)
             (List.map_filter (itemPosting E) cur) (map (itemUid E) cur) counts =
         buildPostingLists_loop E (nxt # rest) (plKey item)
                 (List.map_filter (itemPosting E) (cur @ [item])) (map (itemUid E) (cur @ [item]))
                 counts"
proof -
  obtain pk where pk: "x_Parse E (plKey item) = Inr (Some pk)"
    using assms(1) by (auto simp: wellFormed_def)
  have c: "(Compare (plKey item) (plKey item) = 0) = True" by (simp add: Compare_eq_0)
  show ?thesis
    apply (subst buildPostingLists_loop.simps(2))
    apply (simp only: addToPL_run[OF assms(1)] list.case sum.case prod.case
        extractPLKey_wf[OF assms(2)] assms(3) pk)
    apply (simp only: c simp_thms list.simps finaliseStep_same flushStep_same_key[OF pk]
        sum.case prod.case append_Nil sum_case_id)
    done
qed

lemma loop_cut:
  assumes "wellFormed E item" "wellFormed E nxt" "plKey nxt \<noteq> plKey item"
    "\<forall>pl. pl_Marshal E pl \<noteq> None" "plKey (hd (cur @ [item])) = plKey item"
  shows "\<exists>cw counts'. filter (\<lambda>w. wSite w = PostingListWrite) cw = [] \<and>
         buildPostingLists_loop E (item # nxt # rest) (plKey item)
             (List.map_filter (itemPosting E) cur) (map (itemUid E) cur) counts =
         (case buildPostingLists_loop E (nxt # rest) (plKey nxt) [] [] counts' of
            Inl e \<Rightarrow> Inl e
          | Inr ws \<Rightarrow> Inr ([finalWrite E (cur @ [item])] @ cw @ ws))"
proof -
  obtain pk where pk: "x_Parse E (plKey item) = Inr (Some pk)"
    using assms(1) by (auto simp: wellFormed_def)
  obtain pn where pn: "x_Parse E (plKey nxt) = Inr (Some pn)"
    using assms(2) by (auto simp: wellFormed_def)
  let ?c1 = "recordCount E pk (map (itemUid E) (cur @ [item])) counts"
  obtain cw counts' where fs: "flushStep E True (plKey nxt) (Some pk) ?c1 = Inr (cw, counts')"
    and cw: "filter (\<lambda>w. wSite w = PostingListWrite) cw = []"
    using flushStep_next[OF pn] by blast
  have fin: "finaliseStep E True (plKey item) (Some pk)
      (List.map_filter (itemPosting E) (cur @ [item])) (map (itemUid E) (cur @ [item])) counts =
      Inr ([finalWrite E (cur @ [item])], [], [], ?c1)"
    using finaliseStep_cut[OF assms(4), of "cur @ [item]" pk counts] unfolding assms(5) .
  have c: "(Compare (plKey nxt) (plKey item) = 0) = False" using assms(3) by (simp add: Compare_eq_0)
  have "buildPostingLists_loop E (item # nxt # rest) (plKey item)
             (List.map_filter (itemPosting E) cur) (map (itemUid E) cur) counts =
         (case buildPostingLists_loop E (nxt # rest) (plKey nxt) [] [] counts' of
            Inl e \<Rightarrow> Inl e
          | Inr ws \<Rightarrow> Inr ([finalWrite E (cur @ [item])] @ cw @ ws))"
    apply (subst buildPostingLists_loop.simps(2))
    apply (simp only: addToPL_run[OF assms(1)] list.case sum.case prod.case
        extractPLKey_wf[OF assms(2)] pk)
    apply (simp only: c simp_thms list.simps fin fs sum.case prod.case)
    done
  with cw show ?thesis by blast
qed

lemma bpl_loop_runs:
  assumes ma: "\<forall>pl. pl_Marshal E pl \<noteq> None"
  shows "wellFormed E item \<Longrightarrow> \<forall>it\<in>set rest. wellFormed E it \<Longrightarrow>
     \<forall>y\<in>set cur. plKey item = plKey y \<Longrightarrow>
     \<exists>ws. buildPostingLists_loop E (item # rest) (plKey item)
            (List.map_filter (itemPosting E) cur) (map (itemUid E) cur) counts = Inr ws \<and>
          filter (\<lambda>w. wSite w = PostingListWrite) ws =
            map (finalWrite E) (runs plKey ((cur @ [item]) @ rest))"
proof (induction rest arbitrary: item cur counts)
  case Nil
  have h: "plKey (hd (cur @ [item])) = plKey item" using Nil(3) by (cases cur) auto
  have same: "\<forall>y\<in>set (cur @ [item]). plKey item = plKey y" using Nil(3) by simp
  have r: "runs plKey (cur @ [item]) = [cur @ [item]]" by (rule runs_single[OF _ same]) simp
  from loop_last[OF Nil(1) ma h, of counts] show ?case
    by (simp only: r append_Nil2 list.map)
next
  case (Cons nxt rest)
  have wn: "wellFormed E nxt" and wr: "\<forall>it\<in>set rest. wellFormed E it"
    using Cons.prems(2) by auto
  have h: "plKey (hd (cur @ [item])) = plKey item" using Cons.prems(3) by (cases cur) auto
  have same: "\<forall>y\<in>set (cur @ [item]). plKey item = plKey y" using Cons.prems(3) by simp
  show ?case
  proof (cases "plKey nxt = plKey item")
    case True
    have same': "\<forall>y\<in>set (cur @ [item]). plKey nxt = plKey y" using same True by metis
    from Cons.IH[OF wn wr same', of counts]
    obtain ws where ws: "buildPostingLists_loop E (nxt # rest) (plKey nxt)
            (List.map_filter (itemPosting E) (cur @ [item])) (map (itemUid E) (cur @ [item])) counts = Inr ws"
      "filter (\<lambda>w. wSite w = PostingListWrite) ws =
            map (finalWrite E) (runs plKey (((cur @ [item]) @ [nxt]) @ rest))"
      by blast
    have "buildPostingLists_loop E (item # nxt # rest) (plKey item)
            (List.map_filter (itemPosting E) cur) (map (itemUid E) cur) counts = Inr ws"
      using loop_same[OF Cons.prems(1) wn True, of rest cur counts] ws(1) True by simp
    moreover have "((cur @ [item]) @ [nxt]) @ rest = (cur @ [item]) @ nxt # rest" by simp
    ultimately show ?thesis using ws(2) by metis
  next
    case False
    from loop_cut[OF Cons.prems(1) wn False ma h, of rest counts]
    obtain cw counts' where cw: "filter (\<lambda>w. wSite w = PostingListWrite) cw = []"
      and eq: "buildPostingLists_loop E (item # nxt # rest) (plKey item)
             (List.map_filter (itemPosting E) cur) (map (itemUid E) cur) counts =
         (case buildPostingLists_loop E (nxt # rest) (plKey nxt) [] [] counts' of
            Inl e \<Rightarrow> Inl e
          | Inr ws \<Rightarrow> Inr ([finalWrite E (cur @ [item])] @ cw @ ws))"
      by blast
    have e: "\<forall>y\<in>set ([] :: Item list). plKey nxt = plKey y" by simp
    from Cons.IH[OF wn wr e, of counts']
    obtain ws where ws: "buildPostingLists_loop E (nxt # rest) (plKey nxt) [] [] counts' = Inr ws"
      "filter (\<lambda>w. wSite w = PostingListWrite) ws = map (finalWrite E) (runs plKey (nxt # rest))"
      by (auto simp: List.map_filter_simps)
    have r: "runs plKey ((cur @ [item]) @ nxt # rest) = (cur @ [item]) # runs plKey (nxt # rest)"
      by (rule runs_cut[OF _ same False]) simp
    have "buildPostingLists_loop E (item # nxt # rest) (plKey item)
             (List.map_filter (itemPosting E) cur) (map (itemUid E) cur) counts =
          Inr ([finalWrite E (cur @ [item])] @ cw @ ws)"
      unfolding eq ws(1) by simp
    moreover have "filter (\<lambda>w. wSite w = PostingListWrite) ([finalWrite E (cur @ [item])] @ cw @ ws) =
        map (finalWrite E) (runs plKey ((cur @ [item]) @ nxt # rest))"
      unfolding r by (simp add: cw ws(2) finalWrite_site)
    ultimately show ?thesis by blast
  qed
qed

lemma buildPostingLists_runs:
  assumes "\<forall>pl. pl_Marshal E pl \<noteq> None" "\<forall>it\<in>set items. wellFormed E it"
  shows "\<exists>ws. buildPostingLists E items = Inr ws \<and>
          filter (\<lambda>w. wSite w = PostingListWrite) ws = map (finalWrite E) (runs plKey items)"
proof (cases items)
  case Nil
  then show ?thesis by (simp add: buildPostingLists_def)
next
  case (Cons item rest)
  have w: "wellFormed E item" "\<forall>it\<in>set rest. wellFormed E it" using assms(2) Cons by auto
  have e: "\<forall>y\<in>set ([] :: Item list). plKey item = plKey y" by simp
  from bpl_loop_runs[OF assms(1) w e, of Map.empty]
  show ?thesis
    by (simp add: buildPostingLists_def Cons extractPLKey_wf[OF w(1)] List.map_filter_simps
        del: buildPostingLists_loop.simps)
qed


section \<open>The reduce step and the staged finalizer: claim\<close>

lemma example_keys:
  "compositeKey nameA 1 = [0, 0, 4, 110, 97, 109, 101, 2, 97, 0, 0, 0, 0, 0, 0, 0, 1]"
  "compositeKey nameA0 65536 = [0, 0, 4, 110, 97, 109, 101, 2, 97, 0, 0, 0, 0, 0, 0, 1, 0, 0]"
  "compositeKey nameA 512 = [0, 0, 4, 110, 97, 109, 101, 2, 97, 0, 0, 0, 0, 0, 0, 2, 0]"
  by (simp_all add: compositeKey_def PutUint64_def nameA_def nameA0_def)

lemma example_uids:
  "Uint64 [0, 0, 0, 0, 0, 0, 0, 1] = 1" "Uint64 [0, 0, 0, 0, 0, 1, 0, 0] = 65536"
  "Uint64 [0, 0, 0, 0, 0, 0, 2, 0] = 512"
  by (simp_all add: Uint64_def)

lemma example_parse:
  "\<exists>pk. exampleParse nameA = Inr (Some pk) \<and> \<not> IsData pk"
  "\<exists>pk. exampleParse nameA0 = Inr (Some pk) \<and> \<not> IsData pk"
  "\<exists>pa p0. exampleParse nameA = Inr (Some pa) \<and> exampleParse nameA0 = Inr (Some p0) \<and>
      Attr pa = Attr p0"
  by (simp_all add: exampleParse_def nameA_def nameA0_def Let_def)

text \<open>
  C3. The claim: for every key that the reduce step, or the staged finalizer, processes,
  exactly one write is produced, and its tag follows the value-bearing entries of the key:
  none, the packed sequence of the UIDs with tag 1; at least one, the serialised posting
  list of exactly the value-bearing postings with the packed sequence of all the UIDs of
  the key, with tag 0.

  The finalizer does not do this. It closes a posting list where the posting-list key
  changes from one item of the auxiliary store to the next (lines 90-101, "the end of a
  single posting list"), which is the end of the posting list only if the items of a key
  are adjacent in the store. The store orders its items by composite key, the posting-list
  key followed by the eight bytes of the UID, and there the items of a key and of the same
  key extended by a zero byte interleave: for the index key \<open>nameA\<close> and its extension
  \<open>nameA0\<close>, the composite key of \<open>nameA\<close> and UID 1 is below that of \<open>nameA0\<close> and UID
  65536, which is below that of \<open>nameA\<close> and UID 512. \<^verbatim>\<open>addPosting\<close> stores these three
  items for three reference postings. On them the finalizer writes the key \<open>nameA\<close>
  twice, first with UID 1 alone and then with UID 512 alone, and the second write replaces
  the first in the target: the posting list stored for \<open>nameA\<close> has lost UID 1.
\<close>

theorem buildPostingLists_writes_key_twice:
  "addPosting examplePostingMarshal Map.empty nameA (refPosting 1) =
     Inr [compositeKey nameA 1 \<mapsto> (None, 1)] \<and>
   addPosting examplePostingMarshal [compositeKey nameA 1 \<mapsto> (None, 1)] nameA0
       (refPosting 65536) =
     Inr [compositeKey nameA 1 \<mapsto> (None, 1), compositeKey nameA0 65536 \<mapsto> (None, 1)] \<and>
   addPosting examplePostingMarshal
       [compositeKey nameA 1 \<mapsto> (None, 1), compositeKey nameA0 65536 \<mapsto> (None, 1)] nameA
       (refPosting 512) =
     Inr [compositeKey nameA 1 \<mapsto> (None, 1), compositeKey nameA0 65536 \<mapsto> (None, 1),
          compositeKey nameA 512 \<mapsto> (None, 1)] \<and>
   Compare (compositeKey nameA 1) (compositeKey nameA0 65536) = - 1 \<and>
   Compare (compositeKey nameA0 65536) (compositeKey nameA 512) = - 1 \<and>
   buildPostingLists exampleEnv [refItem nameA 1, refItem nameA0 65536, refItem nameA 512] =
     Inr [\<lparr>wSite = PostingListWrite, wKey = nameA, wValue = examplePack [1], wMeta = 1\<rparr>,
          \<lparr>wSite = PostingListWrite, wKey = nameA0, wValue = examplePack [65536], wMeta = 1\<rparr>,
          \<lparr>wSite = PostingListWrite, wKey = nameA, wValue = examplePack [512], wMeta = 1\<rparr>] \<and>
   applyWrites Map.empty
       [\<lparr>wSite = PostingListWrite, wKey = nameA, wValue = examplePack [1], wMeta = 1\<rparr>,
        \<lparr>wSite = PostingListWrite, wKey = nameA0, wValue = examplePack [65536], wMeta = 1\<rparr>,
        \<lparr>wSite = PostingListWrite, wKey = nameA, wValue = examplePack [512], wMeta = 1\<rparr>]
       nameA = Some (examplePack [512], 1)"
proof -
  have 1: "addPosting examplePostingMarshal Map.empty nameA (refPosting 1) =
     Inr [compositeKey nameA 1 \<mapsto> (None, 1)]"
    by (simp add: addPosting_def refPosting_def kv_Set_def)
  have 2: "addPosting examplePostingMarshal [compositeKey nameA 1 \<mapsto> (None, 1)] nameA0
       (refPosting 65536) =
     Inr [compositeKey nameA 1 \<mapsto> (None, 1), compositeKey nameA0 65536 \<mapsto> (None, 1)]"
    by (simp add: addPosting_def refPosting_def kv_Set_def)
  have 3: "addPosting examplePostingMarshal
       [compositeKey nameA 1 \<mapsto> (None, 1), compositeKey nameA0 65536 \<mapsto> (None, 1)] nameA
       (refPosting 512) =
     Inr [compositeKey nameA 1 \<mapsto> (None, 1), compositeKey nameA0 65536 \<mapsto> (None, 1),
          compositeKey nameA 512 \<mapsto> (None, 1)]"
    by (simp add: addPosting_def refPosting_def kv_Set_def)
  have 4: "Compare (compositeKey nameA 1) (compositeKey nameA0 65536) = - 1"
    "Compare (compositeKey nameA0 65536) (compositeKey nameA 512) = - 1"
    unfolding example_keys by simp_all
  obtain pa p0 where p: "exampleParse nameA = Inr (Some pa)" "exampleParse nameA0 = Inr (Some p0)"
    "Attr pa = Attr p0" and d: "\<not> IsData pa" "\<not> IsData p0"
    using example_parse by force
  have ne: "(Compare nameA0 nameA = 0) = False" "(Compare nameA nameA0 = 0) = False"
    by (simp_all add: Compare_eq_0 nameA_def nameA0_def)
  have o: "exampleOrder Map.empty = []" by (simp add: exampleOrder_def)
  have items: "[refItem nameA 1, refItem nameA0 65536, refItem nameA 512] =
      [\<lparr>iKey = [0, 0, 4, 110, 97, 109, 101, 2, 97, 0, 0, 0, 0, 0, 0, 0, 1], iValue = None,
         iMeta = 1\<rparr>,
       \<lparr>iKey = [0, 0, 4, 110, 97, 109, 101, 2, 97, 0, 0, 0, 0, 0, 0, 1, 0, 0], iValue = None,
         iMeta = 1\<rparr>,
       \<lparr>iKey = [0, 0, 4, 110, 97, 109, 101, 2, 97, 0, 0, 0, 0, 0, 0, 2, 0], iValue = None,
         iMeta = 1\<rparr>]"
    by (simp add: refItem_def example_keys)
  have 5: "buildPostingLists exampleEnv [refItem nameA 1, refItem nameA0 65536, refItem nameA 512] =
     Inr [\<lparr>wSite = PostingListWrite, wKey = nameA, wValue = examplePack [1], wMeta = 1\<rparr>,
          \<lparr>wSite = PostingListWrite, wKey = nameA0, wValue = examplePack [65536], wMeta = 1\<rparr>,
          \<lparr>wSite = PostingListWrite, wKey = nameA, wValue = examplePack [512], wMeta = 1\<rparr>]"
    unfolding items
    by (simp add: buildPostingLists_def extractPLKey_def
        addToPL_def extractUID_def example_uids exampleEnv_def
        p[unfolded nameA_def nameA0_def] d ne[unfolded nameA_def nameA0_def] o
        finaliseStep_def flushStep_def finalisePL_def recordCount_def deref_def
        nameA_def nameA0_def)
  have 6: "applyWrites Map.empty
       [\<lparr>wSite = PostingListWrite, wKey = nameA, wValue = examplePack [1], wMeta = 1\<rparr>,
        \<lparr>wSite = PostingListWrite, wKey = nameA0, wValue = examplePack [65536], wMeta = 1\<rparr>,
        \<lparr>wSite = PostingListWrite, wKey = nameA, wValue = examplePack [512], wMeta = 1\<rparr>]
       nameA = Some (examplePack [512], 1)"
    by (simp add: applyWrites_def kv_Set_def)
  show ?thesis using 1 2 3 4 5 6 by simp
qed

end
